theory Spec2Isabelle
  imports Complex_Main
begin

section \<open>LiveConversation: the component's state\<close>

text \<open>
  The component of \<^verbatim>\<open>LiveConversation\<close> keeps three React state flags and seven
  reference cells. Browser objects (audio contexts, the media stream, graph nodes, buffer
  source nodes, the session promise) are identified by handles that the browser hands
  out; a reference cell holding \<^verbatim>\<open>null\<close> is \<open>None\<close>. Times are JavaScript numbers,
  taken here as real numbers. Samples are finite Float32 numbers, each an integer count
  of units of 2 to the power -149, the smallest positive Float32 number.

  \<open>sourcesRef\<close> is a JavaScript \<^verbatim>\<open>Set\<close>: a list without repetition in insertion order.
  \<open>outputContext\<close> is the local constant of \<^verbatim>\<open>startSession\<close> that the callbacks close
  over. The last six fields record what the component did to the browser objects:
  tracks stopped, nodes disconnected, contexts closed, buffer sources stopped, buffer
  sources started (with the start time passed to \<^verbatim>\<open>source.start\<close>), and the frames
  whose encoding went to \<^verbatim>\<open>sendRealtimeInput\<close>.
\<close>

type_synonym handle = nat

record live =
  isConnected :: bool
  isSpeaking :: bool
  isAgentSpeaking :: bool
  audioContextRef :: "handle option"
  mediaStreamRef :: "handle option"
  processorRef :: "handle option"
  sourceRef :: "handle option"
  sessionRef :: "handle option"
  nextStartTimeRef :: real
  sourcesRef :: "handle list"
  outputContext :: "handle option"
  tracksStopped :: "handle list"
  nodesDisconnected :: "handle list"
  contextsClosed :: "handle list"
  sourcesStopped :: "handle list"
  sourcesStarted :: "(handle \<times> real) list"
  framesSent :: "int list list"

definition init :: live where
  "init = \<lparr>isConnected = False, isSpeaking = False, isAgentSpeaking = False,
     audioContextRef = None, mediaStreamRef = None, processorRef = None, sourceRef = None,
     sessionRef = None, nextStartTimeRef = 0, sourcesRef = [], outputContext = None,
     tracksStopped = [], nodesDisconnected = [], contextsClosed = [], sourcesStopped = [],
     sourcesStarted = [], framesSent = []\<rparr>"

text \<open>\<^verbatim>\<open>Set.add\<close> and \<^verbatim>\<open>Set.delete\<close>.\<close>

definition set_add :: "handle \<Rightarrow> handle list \<Rightarrow> handle list" where
  "set_add x xs = (if x \<in> set xs then xs else xs @ [x])"

definition set_delete :: "handle \<Rightarrow> handle list \<Rightarrow> handle list" where
  "set_delete x xs = filter (\<lambda>y. y \<noteq> x) xs"

section \<open>stopEverything\<close>

text \<open>
  Lines 21--48. Each of the four capture references is released only when it is set.
  The session is not closed and \<open>sessionRef\<close> is not touched (the comment of lines
  38--40); the output context is not mentioned at all.
\<close>

definition stopEverything :: "live \<Rightarrow> live" where
  "stopEverything s =
    (let s1 = (case mediaStreamRef s of
                 Some m \<Rightarrow> s\<lparr>tracksStopped := tracksStopped s @ [m], mediaStreamRef := None\<rparr>
               | None \<Rightarrow> s);
         s2 = (case processorRef s1 of
                 Some p \<Rightarrow> s1\<lparr>nodesDisconnected := nodesDisconnected s1 @ [p], processorRef := None\<rparr>
               | None \<Rightarrow> s1);
         s3 = (case sourceRef s2 of
                 Some n \<Rightarrow> s2\<lparr>nodesDisconnected := nodesDisconnected s2 @ [n], sourceRef := None\<rparr>
               | None \<Rightarrow> s2);
         s4 = (case audioContextRef s3 of
                 Some c \<Rightarrow> s3\<lparr>contextsClosed := contextsClosed s3 @ [c], audioContextRef := None\<rparr>
               | None \<Rightarrow> s3)
     in s4\<lparr>isConnected := False, isSpeaking := False, isAgentSpeaking := False,
           nextStartTimeRef := 0,
           sourcesStopped := sourcesStopped s4 @ sourcesRef s4,
           sourcesRef := []\<rparr>)"

text \<open>A reference cell as the list of what it holds.\<close>

fun held :: "handle option \<Rightarrow> handle list" where
  "held None = []"
| "held (Some h) = [h]"

section \<open>startSession and the session callbacks\<close>

text \<open>
  \<^verbatim>\<open>startSession\<close> is asynchronous. Up to its \<^verbatim>\<open>await\<close> (lines 52--56) it creates the
  two audio contexts and asks for the microphone; when the request is granted (lines
  57--60) it stores the stream and connects the session. A rejected request lands in the
  \<^verbatim>\<open>catch\<close> block, which changes nothing.
\<close>

definition startSession_begin :: "handle \<Rightarrow> handle \<Rightarrow> live \<Rightarrow> live" where
  "startSession_begin ctx out s = s\<lparr>audioContextRef := Some ctx, outputContext := Some out\<rparr>"

definition startSession_granted :: "handle \<Rightarrow> handle \<Rightarrow> live \<Rightarrow> live" where
  "startSession_granted stream session s =
     s\<lparr>mediaStreamRef := Some stream, sessionRef := Some session\<rparr>"

text \<open>\<^verbatim>\<open>onOpen\<close>, lines 61--86: the capture graph is built here.\<close>

definition onOpen :: "handle \<Rightarrow> handle \<Rightarrow> live \<Rightarrow> live" where
  "onOpen node proc s =
    (let s1 = s\<lparr>isConnected := True\<rparr>
     in if audioContextRef s1 = None then s1
        else s1\<lparr>sourceRef := Some node, processorRef := Some proc\<rparr>)"

text \<open>
  \<^verbatim>\<open>onaudioprocess\<close>, lines 71--82. The \<^verbatim>\<open>reduce\<close> starts from 0 and adds the
  absolute value of each sample to an accumulator that is a double: every addition is
  rounded to 53 significant bits, to nearest and to even on a tie. A Float32 number, and
  hence every sum of at most 4096 of them, is a multiple of the unit and far from the
  overflow and the subnormal range of the doubles, so that the accumulator is a natural
  number of units and the rounding is \<open>round_double\<close>. \<open>bits\<close> is the length of a number
  in binary. The flag is the comparison of the accumulated sum with 10.
  The frame goes to the session when a session promise is there.
\<close>

function bits :: "nat \<Rightarrow> nat" where
  "bits n = (if n = 0 then 0 else Suc (bits (n div 2)))"
  by pat_completeness auto
termination
  by (relation "measure id") auto

declare bits.simps [simp del]

definition round_double :: "nat \<Rightarrow> nat" where
  "round_double x =
     (let k = bits x in
      if k \<le> 53 then x
      else (let s = k - 53; q = x div 2 ^ s; r = x mod 2 ^ s; half = 2 ^ (s - 1)
            in (if r > half \<or> (r = half \<and> odd q) then q + 1 else q) * 2 ^ s))"

definition sum_abs :: "int list \<Rightarrow> nat" where
  "sum_abs inputData = foldl (\<lambda>a b. round_double (a + nat \<bar>b\<bar>)) 0 inputData"

definition onaudioprocess :: "int list \<Rightarrow> live \<Rightarrow> live" where
  "onaudioprocess inputData s =
    (let s1 = s\<lparr>isSpeaking := (sum_abs inputData > 10 * 2 ^ 149)\<rparr>
     in case sessionRef s1 of
          Some _ \<Rightarrow> s1\<lparr>framesSent := framesSent s1 @ [inputData]\<rparr>
        | None \<Rightarrow> s1)"

text \<open>
  The number a count of units stands for, and the counts that are Float32 numbers: at
  most 24 significant bits, and no more than the largest finite Float32 number.
\<close>

definition sample_value :: "int \<Rightarrow> real" where
  "sample_value x = real_of_int x / 2 ^ 149"

definition is_float32 :: "int \<Rightarrow> bool" where
  "is_float32 x =
     (let a = nat \<bar>x\<bar>; k = bits a
      in k \<le> 277 \<and> (k \<le> 24 \<or> a mod 2 ^ (k - 24) = 0))"

text \<open>The script processor is created with a buffer size of 4096 (line 69).\<close>

definition frameSize :: nat where
  "frameSize = 4096"

text \<open>
  \<^verbatim>\<open>onMessage\<close>, lines 87--124. A message either carries no audio data (\<open>None\<close>) or
  some; \<^verbatim>\<open>decodeAudioData(decode(audioData), ...)\<close> belongs to a module that is not
  among the sources, so its outcome comes with the message: it fails, or it yields a
  buffer of a given duration. The handler also receives the new buffer source node and
  the reading of \<^verbatim>\<open>outputContext.currentTime\<close>. One call of the handler is one step:
  the awaited decoding is taken to finish before any other callback runs.

  A failed decoding rejects the handler's promise: everything after line 91 is skipped,
  the interruption branch included, while the flag set on line 90 stays.
\<close>

datatype decoded = DecodeError | AudioBuffer real

record server_message =
  audioData :: "decoded option"
  interrupted :: bool

datatype outcome = Fulfilled | Rejected

definition schedule :: "handle \<Rightarrow> real \<Rightarrow> real \<Rightarrow> live \<Rightarrow> live" where
  "schedule source currentTime duration s =
    (let s1 = (if nextStartTimeRef s < currentTime
               then s\<lparr>nextStartTimeRef := currentTime\<rparr> else s);
         s2 = s1\<lparr>sourcesStarted := sourcesStarted s1 @ [(source, nextStartTimeRef s1)]\<rparr>;
         s3 = s2\<lparr>nextStartTimeRef := nextStartTimeRef s2 + duration\<rparr>
     in s3\<lparr>sourcesRef := set_add source (sourcesRef s3)\<rparr>)"

definition interrupt :: "live \<Rightarrow> live" where
  "interrupt s =
     s\<lparr>sourcesStopped := sourcesStopped s @ sourcesRef s, sourcesRef := [],
       nextStartTimeRef := 0, isAgentSpeaking := False\<rparr>"

definition onMessage :: "server_message \<Rightarrow> handle \<Rightarrow> real \<Rightarrow> live \<Rightarrow> outcome \<times> live" where
  "onMessage msg source currentTime s =
    (case audioData msg of
       Some DecodeError \<Rightarrow> (Rejected, s\<lparr>isAgentSpeaking := True\<rparr>)
     | Some (AudioBuffer duration) \<Rightarrow>
         (let s1 = schedule source currentTime duration (s\<lparr>isAgentSpeaking := True\<rparr>)
          in (Fulfilled, if interrupted msg then interrupt s1 else s1))
     | None \<Rightarrow> (Fulfilled, if interrupted msg then interrupt s else s))"

text \<open>\<^verbatim>\<open>source.onended\<close>, lines 112--115.\<close>

definition onended :: "handle \<Rightarrow> live \<Rightarrow> live" where
  "onended source s =
    (let s1 = s\<lparr>sourcesRef := set_delete source (sourcesRef s)\<rparr>
     in if length (sourcesRef s1) = 0 then s1\<lparr>isAgentSpeaking := False\<rparr> else s1)"

section \<open>Runs of the component\<close>

text \<open>
  The callbacks run one at a time. \<open>onClose\<close>, \<open>onError\<close>, the stop button and the
  unmount effect all call \<^verbatim>\<open>stopEverything\<close>.
\<close>

datatype event =
    StartSession handle handle
  | MicGranted handle handle
  | MicDenied
  | OnOpen handle handle
  | OnAudioProcess "int list"
  | OnMessage server_message handle real
  | OnEnded handle
  | OnClose
  | OnError
  | Stop

fun step :: "event \<Rightarrow> live \<Rightarrow> live" where
  "step (StartSession ctx out) s = startSession_begin ctx out s"
| "step (MicGranted stream session) s = startSession_granted stream session s"
| "step MicDenied s = s"
| "step (OnOpen node proc) s = onOpen node proc s"
| "step (OnAudioProcess inputData) s = onaudioprocess inputData s"
| "step (OnMessage msg source currentTime) s = snd (onMessage msg source currentTime s)"
| "step (OnEnded source) s = onended source s"
| "step OnClose s = stopEverything s"
| "step OnError s = stopEverything s"
| "step Stop s = stopEverything s"

fun run :: "live \<Rightarrow> event list \<Rightarrow> live" where
  "run s [] = s"
| "run s (e # es) = run (step e s) es"

text \<open>
  What a run schedules. \<open>chunk_of\<close> gives, for a message whose audio decodes, the clock
  reading and the duration that reach the scheduling path (lines 98--115); \<open>resets\<close>
  holds of the events that can put the cursor back to 0: a message flagged as
  interrupted and the three callers of \<^verbatim>\<open>stopEverything\<close>. \<open>arrives_from t\<close> holds of
  an event whose clock reading, if it has one, is not before \<open>t\<close>; \<open>decodes\<close> of every
  event but a message whose audio fails to decode; \<open>is_open\<close> and \<open>is_granted\<close> of the
  \<^verbatim>\<open>onOpen\<close> callback and of the granted microphone request.
\<close>

fun chunk_of :: "event \<Rightarrow> (real \<times> real) option" where
  "chunk_of (OnMessage msg source currentTime) =
     (case audioData msg of
        Some (AudioBuffer duration) \<Rightarrow> Some (currentTime, duration)
      | _ \<Rightarrow> None)"
| "chunk_of _ = None"

fun chunks :: "event list \<Rightarrow> (real \<times> real) list" where
  "chunks [] = []"
| "chunks (e # es) = (case chunk_of e of Some c \<Rightarrow> c # chunks es | None \<Rightarrow> chunks es)"

fun resets :: "event \<Rightarrow> bool" where
  "resets (OnMessage msg source currentTime) = interrupted msg"
| "resets OnClose = True"
| "resets OnError = True"
| "resets Stop = True"
| "resets _ = False"

fun arrives_from :: "real \<Rightarrow> event \<Rightarrow> bool" where
  "arrives_from t (OnMessage msg source currentTime) = (t \<le> currentTime)"
| "arrives_from t _ = True"

fun decodes :: "event \<Rightarrow> bool" where
  "decodes (OnMessage msg source currentTime) = (audioData msg \<noteq> Some DecodeError)"
| "decodes _ = True"

fun is_open :: "event \<Rightarrow> bool" where
  "is_open (OnOpen node proc) = True"
| "is_open _ = False"

fun is_granted :: "event \<Rightarrow> bool" where
  "is_granted (MicGranted stream session) = True"
| "is_granted _ = False"

text \<open>
  The scheduling rule in the specification's words: each start is the larger of the
  clock reading and the end of the chunk before it.
\<close>

fun spec_starts :: "real \<Rightarrow> (real \<times> real) list \<Rightarrow> real list" where
  "spec_starts lastEnd [] = []"
| "spec_starts lastEnd ((now, d) # cs) = max now lastEnd # spec_starts (max now lastEnd + d) cs"

text \<open>The specification's activity measure: the mean absolute amplitude of a frame.\<close>

definition spec_mean_abs :: "int list \<Rightarrow> real" where
  "spec_mean_abs frame = (\<Sum>x\<leftarrow>frame. \<bar>sample_value x\<bar>) / real (length frame)"

section \<open>StorageService: users\<close>

text \<open>
  \<^verbatim>\<open>localStorage\<close> holds, under \<^verbatim>\<open>bayan_users\<close>, the JSON text of the user list and,
  under \<^verbatim>\<open>bayan_current_user_id\<close>, an id. A user list survives
  \<^verbatim>\<open>JSON.stringify\<close> and \<^verbatim>\<open>JSON.parse\<close> unchanged, so the stored text is taken as the
  list; an absent key is \<open>None\<close>.
\<close>

datatype TransliterationScheme = ISO | Buckwalter

record UserPreferences =
  transliterationScheme :: TransliterationScheme
  includeLiteralTranslation :: bool

record User =
  user_id :: string
  username :: string
  email :: string
  preferences :: UserPreferences

record localStorage =
  bayan_users :: "User list option"
  bayan_current_user_id :: "string option"

datatype js_error = Error string | TypeError

definition DEFAULT_PREFERENCES :: UserPreferences where
  "DEFAULT_PREFERENCES = \<lparr>transliterationScheme = ISO, includeLiteralTranslation = True\<rparr>"

text \<open>
  \<^verbatim>\<open>String.prototype.toLowerCase\<close> is a built-in of the language that maps every
  cased letter of Unicode. It is not modelled: \<^verbatim>\<open>login\<close> and \<^verbatim>\<open>register\<close> take it as
  their first argument, and what is proved of them holds for whatever function it is.
  On strings of ASCII characters it is \<open>ascii_lower\<close>, which the examples use.
\<close>

definition ascii_lower :: "string \<Rightarrow> string" where
  "ascii_lower str =
     map (\<lambda>c. let n = (of_char c :: nat) in if 65 \<le> n \<and> n \<le> 90 then char_of (n + 32) else c) str"

text \<open>\<^verbatim>\<open>Array.prototype.findIndex\<close>: the first index that satisfies the test, or -1.\<close>

fun findIndex :: "('a \<Rightarrow> bool) \<Rightarrow> 'a list \<Rightarrow> int" where
  "findIndex P [] = -1"
| "findIndex P (x # xs) =
     (if P x then 0 else (let i = findIndex P xs in if i < 0 then -1 else i + 1))"

definition getUsers :: "localStorage \<Rightarrow> User list" where
  "getUsers st = (case bayan_users st of Some users \<Rightarrow> users | None \<Rightarrow> [])"

definition saveUser :: "User \<Rightarrow> localStorage \<Rightarrow> localStorage" where
  "saveUser user st =
    (let users = getUsers st;
         existingIndex = findIndex (\<lambda>u. user_id u = user_id user) users
     in st\<lparr>bayan_users :=
             Some (if existingIndex \<ge> 0 then users[nat existingIndex := user]
                   else users @ [user])\<rparr>)"

definition login :: "(string \<Rightarrow> string) \<Rightarrow> string \<Rightarrow> localStorage \<Rightarrow> User option \<times> localStorage" where
  "login toLowerCase name st =
    (case find (\<lambda>u. toLowerCase (username u) = toLowerCase name) (getUsers st) of
       Some user \<Rightarrow> (Some user, st\<lparr>bayan_current_user_id := Some (user_id user)\<rparr>)
     | None \<Rightarrow> (None, st))"

text \<open>
  \<^verbatim>\<open>register\<close>. The id of the new user is what \<^verbatim>\<open>crypto.randomUUID()\<close> returns, an
  input here.
\<close>

definition register ::
  "(string \<Rightarrow> string) \<Rightarrow> string \<Rightarrow> string \<Rightarrow> string \<Rightarrow> localStorage \<Rightarrow> js_error + (User \<times> localStorage)" where
  "register toLowerCase name mail randomUUID st =
    (case find (\<lambda>u. toLowerCase (username u) = toLowerCase name) (getUsers st) of
       Some _ \<Rightarrow> Inl (Error ''Username already exists'')
     | None \<Rightarrow>
        (let newUser = \<lparr>user_id = randomUUID, username = name, email = mail,
                         preferences = DEFAULT_PREFERENCES\<rparr>;
             st1 = saveUser newUser st
         in Inr (newUser, st1\<lparr>bayan_current_user_id := Some (user_id newUser)\<rparr>)))"

section \<open>summarizeLecture: from the response text to the summary\<close>

text \<open>
  Lines 63--100 of \<^verbatim>\<open>services/gemini.ts\<close>. JavaScript values are \<open>js_value\<close>; an
  object is the list of its own properties. The built-in \<^verbatim>\<open>JSON.parse\<close> is not
  modelled: the input is what it does on the cleaned response text, a syntax error or
  the parsed value. On a syntax error \<open>parsed\<close> keeps its initial value, the empty
  object.
\<close>

datatype js_value =
    JUndefined
  | JNull
  | JBool bool
  | JNumber real
  | JString string
  | JArray "js_value list"
  | JObject "(string \<times> js_value) list"

datatype parse_result = SyntaxError | Parsed js_value

text \<open>
  Reading a property: a \<^verbatim>\<open>TypeError\<close> on \<^verbatim>\<open>null\<close> and \<^verbatim>\<open>undefined\<close>, the
  property's value on an object, and \<^verbatim>\<open>undefined\<close> where there is none. Primitive
  values and arrays have none of the six properties read here.
\<close>

fun get_prop :: "js_value \<Rightarrow> string \<Rightarrow> js_error + js_value" where
  "get_prop JNull k = Inl TypeError"
| "get_prop JUndefined k = Inl TypeError"
| "get_prop (JObject kvs) k = Inr (case map_of kvs k of Some v \<Rightarrow> v | None \<Rightarrow> JUndefined)"
| "get_prop _ k = Inr JUndefined"

fun truthy :: "js_value \<Rightarrow> bool" where
  "truthy JUndefined = False"
| "truthy JNull = False"
| "truthy (JBool b) = b"
| "truthy (JNumber n) = (n \<noteq> 0)"
| "truthy (JString str) = (str \<noteq> [])"
| "truthy (JArray xs) = True"
| "truthy (JObject kvs) = True"

text \<open>\<^verbatim>\<open>v || "Summary generation failed."\<close> and \<^verbatim>\<open>Array.isArray(v) ? v : []\<close>.\<close>

definition or_failed :: "js_value \<Rightarrow> js_value" where
  "or_failed v = (if truthy v then v else JString ''Summary generation failed.'')"

fun array_or_empty :: "js_value \<Rightarrow> js_value list" where
  "array_or_empty (JArray xs) = xs"
| "array_or_empty _ = []"

record LectureSummary =
  summary_short :: js_value
  summary_medium :: js_value
  summary_long :: js_value
  claims :: "js_value list"
  transliterations :: "js_value list"
  warnings :: "js_value list"

text \<open>
  A grounding chunk may lack \<^verbatim>\<open>web\<close>; \<^verbatim>\<open>web\<close> has a title and a uri, each of which
  may be any value. The chunks kept are those with a truthy \<^verbatim>\<open>web.uri\<close>.
\<close>

record web =
  title :: js_value
  uri :: js_value

definition sources_of :: "web option list \<Rightarrow> js_value list" where
  "sources_of groundingChunks =
     map (\<lambda>c. case c of
                 Some w \<Rightarrow> JObject [(''title'', title w), (''uri'', uri w)]
               | None \<Rightarrow> JUndefined)
       (filter (\<lambda>c. case c of Some w \<Rightarrow> truthy (uri w) | None \<Rightarrow> False) groundingChunks)"

text \<open>
  \<^verbatim>\<open>claim.sources = sources\<close>: on an object the property is set (replaced where it
  exists, added last otherwise). An array is an object too and takes the property, which
  leaves its elements as they are. The file is a module, hence strict code, where the
  assignment to a property of a primitive value raises a \<^verbatim>\<open>TypeError\<close>.
\<close>

fun set_prop :: "string \<Rightarrow> js_value \<Rightarrow> (string \<times> js_value) list \<Rightarrow> (string \<times> js_value) list" where
  "set_prop k v [] = [(k, v)]"
| "set_prop k v ((k', v') # kvs) = (if k' = k then (k, v) # kvs else (k', v') # set_prop k v kvs)"

fun assign_sources :: "js_value \<Rightarrow> js_value list \<Rightarrow> js_error + js_value" where
  "assign_sources (JObject kvs) srcs = Inr (JObject (set_prop ''sources'' (JArray srcs) kvs))"
| "assign_sources (JArray xs) srcs = Inr (JArray xs)"
| "assign_sources _ srcs = Inl TypeError"

definition attach :: "web option list option \<Rightarrow> js_value list \<Rightarrow> js_error + js_value list" where
  "attach groundingChunks cls =
    (case groundingChunks of
       None \<Rightarrow> Inr cls
     | Some gcs \<Rightarrow>
        (case cls of
           [] \<Rightarrow> Inr cls
         | c # rest \<Rightarrow>
            (let srcs = sources_of gcs
             in if length srcs > 0 \<and> truthy c
                then (case assign_sources c srcs of
                        Inl e \<Rightarrow> Inl e
                      | Inr c' \<Rightarrow> Inr (c' # rest))
                else Inr cls)))"

definition summarizeLecture :: "parse_result \<Rightarrow> web option list option \<Rightarrow> js_error + LectureSummary" where
  "summarizeLecture parsing groundingChunks =
    (let parsed = (case parsing of Parsed v \<Rightarrow> v | SyntaxError \<Rightarrow> JObject [])
     in (case get_prop parsed ''summary_short'' of Inl e \<Rightarrow> Inl e | Inr short \<Rightarrow>
        (case get_prop parsed ''summary_medium'' of Inl e \<Rightarrow> Inl e | Inr medium \<Rightarrow>
        (case get_prop parsed ''summary_long'' of Inl e \<Rightarrow> Inl e | Inr long \<Rightarrow>
        (case get_prop parsed ''claims'' of Inl e \<Rightarrow> Inl e | Inr cls \<Rightarrow>
        (case get_prop parsed ''transliterations'' of Inl e \<Rightarrow> Inl e | Inr trs \<Rightarrow>
        (case get_prop parsed ''warnings'' of Inl e \<Rightarrow> Inl e | Inr wrs \<Rightarrow>
        (case attach groundingChunks (array_or_empty cls) of Inl e \<Rightarrow> Inl e | Inr cls' \<Rightarrow>
          Inr \<lparr>summary_short = or_failed short, summary_medium = or_failed medium,
               summary_long = or_failed long, claims = cls',
               transliterations = array_or_empty trs, warnings = array_or_empty wrs\<rparr>))))))))"

section \<open>Playback scheduling\<close>

lemma schedule_started:
  "sourcesStarted (schedule h t d s) = sourcesStarted s @ [(h, max t (nextStartTimeRef s))]"
  unfolding schedule_def Let_def by (cases "nextStartTimeRef s < t") simp_all

lemma schedule_cursor:
  "nextStartTimeRef (schedule h t d s) = max t (nextStartTimeRef s) + d"
  unfolding schedule_def Let_def by (cases "nextStartTimeRef s < t") simp_all

lemma quiet_handlers:
  "sourcesStarted (startSession_begin c out s) = sourcesStarted s"
  "nextStartTimeRef (startSession_begin c out s) = nextStartTimeRef s"
  "sourcesStarted (startSession_granted m se s) = sourcesStarted s"
  "nextStartTimeRef (startSession_granted m se s) = nextStartTimeRef s"
  "sourcesStarted (onOpen n p s) = sourcesStarted s"
  "nextStartTimeRef (onOpen n p s) = nextStartTimeRef s"
  "sourcesStarted (onaudioprocess f s) = sourcesStarted s"
  "nextStartTimeRef (onaudioprocess f s) = nextStartTimeRef s"
  "sourcesStarted (onended h s) = sourcesStarted s"
  "nextStartTimeRef (onended h s) = nextStartTimeRef s"
  by (simp_all add: startSession_begin_def startSession_granted_def onOpen_def
        onaudioprocess_def onended_def Let_def split: option.split)

lemma onMessage_quiet:
  "\<not> interrupted msg \<Longrightarrow> \<forall>d. audioData msg \<noteq> Some (AudioBuffer d) \<Longrightarrow>
     sourcesStarted (snd (onMessage msg h t s)) = sourcesStarted s \<and>
     nextStartTimeRef (snd (onMessage msg h t s)) = nextStartTimeRef s"
  by (cases "audioData msg") (auto simp: onMessage_def split: decoded.split)

lemma onMessage_chunk:
  "\<not> interrupted msg \<Longrightarrow> audioData msg = Some (AudioBuffer d) \<Longrightarrow>
     sourcesStarted (snd (onMessage msg h t s)) = sourcesStarted s @ [(h, max t (nextStartTimeRef s))] \<and>
     nextStartTimeRef (snd (onMessage msg h t s)) = max t (nextStartTimeRef s) + d"
  by (simp add: onMessage_def schedule_started schedule_cursor Let_def)

lemma step_quiet:
  "\<not> resets e \<Longrightarrow> chunk_of e = None \<Longrightarrow>
     sourcesStarted (step e s) = sourcesStarted s \<and> nextStartTimeRef (step e s) = nextStartTimeRef s"
proof (cases e)
  case (OnMessage msg h t)
  assume "\<not> resets e" "chunk_of e = None"
  with OnMessage have "\<not> interrupted msg" "\<forall>d. audioData msg \<noteq> Some (AudioBuffer d)"
    by (auto split: option.splits decoded.splits)
  with OnMessage onMessage_quiet [of msg h t s] show ?thesis by simp
qed (simp_all add: quiet_handlers)

lemma step_chunk:
  "\<not> resets e \<Longrightarrow> chunk_of e = Some (t, d) \<Longrightarrow>
     map snd (sourcesStarted (step e s)) = map snd (sourcesStarted s) @ [max t (nextStartTimeRef s)]
     \<and> nextStartTimeRef (step e s) = max t (nextStartTimeRef s) + d"
proof (cases e)
  case (OnMessage msg h t')
  assume "\<not> resets e" "chunk_of e = Some (t, d)"
  with OnMessage have "\<not> interrupted msg" "audioData msg = Some (AudioBuffer d)" "t' = t"
    by (auto split: option.splits decoded.splits)
  with OnMessage onMessage_chunk [of msg d h t s] show ?thesis by simp
qed simp_all

lemma run_starts:
  "\<forall>e\<in>set evs. \<not> resets e \<Longrightarrow>
     map snd (sourcesStarted (run s evs)) =
       map snd (sourcesStarted s) @ spec_starts (nextStartTimeRef s) (chunks evs)"
proof (induction evs arbitrary: s)
  case Nil
  then show ?case by simp
next
  case (Cons e evs)
  then have nr: "\<not> resets e" and rest: "\<forall>e\<in>set evs. \<not> resets e" by simp_all
  show ?case
  proof (cases "chunk_of e")
    case None
    with step_quiet [OF nr None, of s] Cons.IH [OF rest, of "step e s"] show ?thesis by simp
  next
    case (Some c)
    obtain t d where c: "c = (t, d)" by (cases c)
    with step_chunk [OF nr, of t d s] Some Cons.IH [OF rest, of "step e s"] show ?thesis by simp
  qed
qed

lemma spec_starts_length: "length (spec_starts c cs) = length cs"
  by (induction c cs rule: spec_starts.induct) auto

lemma spec_starts_nth:
  "i < length cs \<Longrightarrow>
     spec_starts c cs ! i =
       max (fst (cs ! i)) (if i = 0 then c else spec_starts c cs ! (i - 1) + snd (cs ! (i - 1)))"
proof (induction c cs arbitrary: i rule: spec_starts.induct)
  case (1 lastEnd)
  then show ?case by simp
next
  case (2 lastEnd now d cs)
  show ?case
  proof (cases i)
    case 0
    then show ?thesis by simp
  next
    case (Suc j)
    with 2 have j: "j < length cs" by simp
    show ?thesis
    proof (cases j)
      case 0
      with Suc j "2.IH" [of 0] show ?thesis by (cases cs) auto
    next
      case (Suc k)
      with \<open>i = Suc j\<close> j "2.IH" [of j] show ?thesis by simp
    qed
  qed
qed

lemma spec_starts_lower: "\<forall>c\<in>set cs. 0 \<le> snd c \<Longrightarrow> x \<in> set (spec_starts c cs) \<Longrightarrow> c \<le> x"
proof (induction c cs rule: spec_starts.induct)
  case (1 lastEnd)
  then show ?case by simp
next
  case (2 lastEnd now d cs)
  then have d: "0 \<le> d" and rest: "\<forall>c\<in>set cs. 0 \<le> snd c" by simp_all
  from "2.prems" have "x = max now lastEnd \<or> x \<in> set (spec_starts (max now lastEnd + d) cs)"
    by simp
  then show ?case
  proof
    assume "x = max now lastEnd"
    then show ?thesis by simp
  next
    assume "x \<in> set (spec_starts (max now lastEnd + d) cs)"
    from "2.IH" [OF rest this] d show ?thesis by linarith
  qed
qed

lemma spec_starts_sorted: "\<forall>c\<in>set cs. 0 \<le> snd c \<Longrightarrow> sorted (spec_starts c cs)"
proof (induction c cs rule: spec_starts.induct)
  case (1 lastEnd)
  then show ?case by simp
next
  case (2 lastEnd now d cs)
  then have d: "0 \<le> d" and rest: "\<forall>c\<in>set cs. 0 \<le> snd c" by simp_all
  have "\<forall>x\<in>set (spec_starts (max now lastEnd + d) cs). max now lastEnd \<le> x"
  proof
    fix x assume "x \<in> set (spec_starts (max now lastEnd + d) cs)"
    from spec_starts_lower [OF rest this] d show "max now lastEnd \<le> x" by linarith
  qed
  then show ?case
    unfolding spec_starts.simps sorted_simps using "2.IH" [OF rest] by (rule conjI)
qed

text \<open>
  Claim C1. Take any run from the initial state (cursor 0) in which no event resets the
  cursor, and the chunks that reach the scheduling path in it, in order. Every chunk is
  started once; the start time of chunk \<open>i\<close> is the larger of the clock reading at its
  scheduling and of the start of chunk \<open>i - 1\<close> plus that chunk's duration (0 for the
  first chunk); and when no duration is negative the start times never decrease.
\<close>

theorem schedule_start_times:
  assumes "\<forall>e\<in>set evs. \<not> resets e"
  shows "length (sourcesStarted (run init evs)) = length (chunks evs) \<and>
    (\<forall>i<length (chunks evs).
       snd (sourcesStarted (run init evs) ! i) =
         max (fst (chunks evs ! i))
             (if i = 0 then 0
              else snd (sourcesStarted (run init evs) ! (i - 1)) + snd (chunks evs ! (i - 1)))) \<and>
    ((\<forall>c\<in>set (chunks evs). 0 \<le> snd c) \<longrightarrow> sorted (map snd (sourcesStarted (run init evs))))"
proof -
  have eq: "map snd (sourcesStarted (run init evs)) = spec_starts 0 (chunks evs)"
    using run_starts [OF assms, of init] by (simp add: init_def)
  then have len: "length (sourcesStarted (run init evs)) = length (chunks evs)"
    by (metis length_map spec_starts_length)
  have nth: "snd (sourcesStarted (run init evs) ! i) = spec_starts 0 (chunks evs) ! i"
    if "i < length (chunks evs)" for i
    using that eq len by (metis nth_map)
  have step: "snd (sourcesStarted (run init evs) ! i) =
         max (fst (chunks evs ! i))
             (if i = 0 then 0
              else snd (sourcesStarted (run init evs) ! (i - 1)) + snd (chunks evs ! (i - 1)))"
    if i: "i < length (chunks evs)" for i
  proof (cases i)
    case 0
    with i nth [OF i] spec_starts_nth [OF i, of 0] show ?thesis by simp
  next
    case (Suc j)
    with i have j: "j < length (chunks evs)" by simp
    from Suc nth [OF i] nth [OF j] spec_starts_nth [OF i, of 0] show ?thesis by simp
  qed
  have mono: "sorted (map snd (sourcesStarted (run init evs)))"
    if "\<forall>c\<in>set (chunks evs). 0 \<le> snd c"
    using spec_starts_sorted [OF that, of 0] by (simp only: eq)
  show ?thesis
  proof (intro conjI allI impI)
    show "length (sourcesStarted (run init evs)) = length (chunks evs)" by (rule len)
  next
    fix i assume "i < length (chunks evs)"
    then show "snd (sourcesStarted (run init evs) ! i) =
         max (fst (chunks evs ! i))
             (if i = 0 then 0
              else snd (sourcesStarted (run init evs) ! (i - 1)) + snd (chunks evs ! (i - 1)))"
      by (rule step)
  next
    assume "\<forall>c\<in>set (chunks evs). 0 \<le> snd c"
    then show "sorted (map snd (sourcesStarted (run init evs)))" by (rule mono)
  qed
qed


text \<open>
  Three chunks of one second, the first two with the clock at 5, the third at 5.5, and
  the end of some other source in between.
\<close>

theorem schedule_start_times_witness:
  "list_all (\<lambda>e. \<not> resets e)
     [OnMessage \<lparr>audioData = Some (AudioBuffer 1), interrupted = False\<rparr> 1 5,
      OnEnded 7,
      OnMessage \<lparr>audioData = Some (AudioBuffer 1), interrupted = False\<rparr> 2 5,
      OnMessage \<lparr>audioData = Some (AudioBuffer 1), interrupted = False\<rparr> 3 (11 / 2)] \<and>
   snd (sourcesStarted (run init
     [OnMessage \<lparr>audioData = Some (AudioBuffer 1), interrupted = False\<rparr> 1 5,
      OnEnded 7,
      OnMessage \<lparr>audioData = Some (AudioBuffer 1), interrupted = False\<rparr> 2 5,
      OnMessage \<lparr>audioData = Some (AudioBuffer 1), interrupted = False\<rparr> 3 (11 / 2)]) ! 2) =
   max (11 / 2) (snd (sourcesStarted (run init
     [OnMessage \<lparr>audioData = Some (AudioBuffer 1), interrupted = False\<rparr> 1 5,
      OnEnded 7,
      OnMessage \<lparr>audioData = Some (AudioBuffer 1), interrupted = False\<rparr> 2 5,
      OnMessage \<lparr>audioData = Some (AudioBuffer 1), interrupted = False\<rparr> 3 (11 / 2)]) ! 1) + 1) \<and>
   sorted (map snd (sourcesStarted (run init
     [OnMessage \<lparr>audioData = Some (AudioBuffer 1), interrupted = False\<rparr> 1 5,
      OnEnded 7,
      OnMessage \<lparr>audioData = Some (AudioBuffer 1), interrupted = False\<rparr> 2 5,
      OnMessage \<lparr>audioData = Some (AudioBuffer 1), interrupted = False\<rparr> 3 (11 / 2)])))"
proof -
  let ?evs = "[OnMessage \<lparr>audioData = Some (AudioBuffer 1), interrupted = False\<rparr> 1 5,
      OnEnded 7,
      OnMessage \<lparr>audioData = Some (AudioBuffer 1), interrupted = False\<rparr> 2 5,
      OnMessage \<lparr>audioData = Some (AudioBuffer 1), interrupted = False\<rparr> 3 (11 / 2)]"
  have h: "\<forall>e\<in>set ?evs. \<not> resets e" by simp
  have cs: "chunks ?evs = [(5, 1), (5, 1), (11 / 2, 1)]" by simp
  have d: "\<forall>c\<in>set (chunks ?evs). 0 \<le> snd c" unfolding cs by simp
  note t = schedule_start_times [OF h]
  from t have "\<forall>i<length (chunks ?evs).
       snd (sourcesStarted (run init ?evs) ! i) =
         max (fst (chunks ?evs ! i))
             (if i = 0 then 0
              else snd (sourcesStarted (run init ?evs) ! (i - 1)) + snd (chunks ?evs ! (i - 1)))"
    by (rule conjunct1 [OF conjunct2])
  then have "2 < length (chunks ?evs) \<longrightarrow>
       snd (sourcesStarted (run init ?evs) ! 2) =
         max (fst (chunks ?evs ! 2))
             (if (2::nat) = 0 then 0
              else snd (sourcesStarted (run init ?evs) ! (2 - 1)) + snd (chunks ?evs ! (2 - 1)))"
    by (rule spec)
  then have a: "snd (sourcesStarted (run init ?evs) ! 2) =
      max (11 / 2) (snd (sourcesStarted (run init ?evs) ! 1) + 1)"
    unfolding cs by simp
  from t d have b: "sorted (map snd (sourcesStarted (run init ?evs)))"
    by (elim conjE impE)
  have c: "list_all (\<lambda>e. \<not> resets e) ?evs" by simp
  from c a b show ?thesis by (intro conjI)
qed

section \<open>Teardown, interruption and the agent flag\<close>

lemma stopEverything_refs:
  "mediaStreamRef (stopEverything s) = None"
  "processorRef (stopEverything s) = None"
  "sourceRef (stopEverything s) = None"
  "audioContextRef (stopEverything s) = None"
  "sessionRef (stopEverything s) = sessionRef s"
  "outputContext (stopEverything s) = outputContext s"
  by (simp_all add: stopEverything_def Let_def split: option.split)

lemma stopEverything_flags:
  "isConnected (stopEverything s) = False"
  "isSpeaking (stopEverything s) = False"
  "isAgentSpeaking (stopEverything s) = False"
  "nextStartTimeRef (stopEverything s) = 0"
  "sourcesRef (stopEverything s) = []"
  by (simp_all add: stopEverything_def Let_def split: option.split)

lemma stopEverything_effects:
  "tracksStopped (stopEverything s) = tracksStopped s @ held (mediaStreamRef s)"
  "nodesDisconnected (stopEverything s) =
     nodesDisconnected s @ held (processorRef s) @ held (sourceRef s)"
  "contextsClosed (stopEverything s) = contextsClosed s @ held (audioContextRef s)"
  "sourcesStopped (stopEverything s) = sourcesStopped s @ sourcesRef s"
  "sourcesStarted (stopEverything s) = sourcesStarted s"
  "framesSent (stopEverything s) = framesSent s"
  by (simp_all add: stopEverything_def Let_def split: option.split)

lemma stopEverything_more: "live.more (stopEverything s) = live.more s"
  by (simp add: stopEverything_def Let_def split: option.split)

lemma stopEverything_idem: "stopEverything (stopEverything s) = stopEverything s"
  by (rule live.equality)
     (simp_all add: stopEverything_refs stopEverything_flags stopEverything_effects
        stopEverything_more)


lemma interrupt_fields:
  "sourcesRef (interrupt s) = []"
  "isAgentSpeaking (interrupt s) = False"
  "nextStartTimeRef (interrupt s) = 0"
  "sourcesStopped (interrupt s) = sourcesStopped s @ sourcesRef s"
  "sourcesStarted (interrupt s) = sourcesStarted s"
  by (simp_all add: interrupt_def)

lemma schedule_fields:
  "sourcesRef (schedule h t d s) = set_add h (sourcesRef s)"
  "sourcesStopped (schedule h t d s) = sourcesStopped s"
  "isAgentSpeaking (schedule h t d s) = isAgentSpeaking s"
  unfolding schedule_def Let_def by (cases "nextStartTimeRef s < t"; simp)+

lemma interruption_cursor:
  assumes "interrupted msg" and "audioData msg \<noteq> Some DecodeError"
  shows "nextStartTimeRef (snd (onMessage msg h t s)) = 0"
proof (cases "audioData msg")
  case None
  with assms show ?thesis by (simp add: onMessage_def interrupt_fields)
next
  case (Some r)
  with assms obtain d where "r = AudioBuffer d" by (cases r) auto
  with Some assms show ?thesis by (simp add: onMessage_def Let_def interrupt_fields)
qed

text \<open>
  Claim C2, as the code has it. When \<^verbatim>\<open>onMessage\<close> handles a message flagged as
  interrupted whose audio chunk, if there is one, decodes, the handler's promise is
  fulfilled, every source of the active set (the chunk just scheduled included) is stopped,
  the set is empty, \<open>isAgentSpeaking\<close> is false, and the cursor is 0. The cursor is not
  set to the clock reading.
\<close>

theorem interruption_flushes:
  assumes "interrupted msg" and "audioData msg \<noteq> Some DecodeError"
  shows "fst (onMessage msg h t s) = Fulfilled \<and>
         sourcesRef (snd (onMessage msg h t s)) = [] \<and>
         sourcesStopped (snd (onMessage msg h t s)) =
           sourcesStopped s @
             (case audioData msg of Some _ \<Rightarrow> set_add h (sourcesRef s) | None \<Rightarrow> sourcesRef s) \<and>
         \<not> isAgentSpeaking (snd (onMessage msg h t s)) \<and>
         nextStartTimeRef (snd (onMessage msg h t s)) = 0"
proof (cases "audioData msg")
  case None
  with assms show ?thesis by (simp add: onMessage_def interrupt_fields)
next
  case (Some r)
  with assms obtain d where "r = AudioBuffer d" by (cases r) auto
  with Some assms show ?thesis
    by (simp add: onMessage_def Let_def interrupt_fields schedule_fields)
qed

text \<open>
  Chunk A is scheduled with the clock at 2; the interruption comes at 2.3 and stops it.
\<close>

theorem interruption_flushes_witness:
  "interrupted \<lparr>audioData = None, interrupted = True\<rparr> \<and>
   audioData \<lparr>audioData = None, interrupted = True\<rparr> \<noteq> Some DecodeError \<and>
   nextStartTimeRef (snd (onMessage \<lparr>audioData = None, interrupted = True\<rparr> 2 (23 / 10)
     (run init [OnMessage \<lparr>audioData = Some (AudioBuffer 1), interrupted = False\<rparr> 1 2]))) = 0 \<and>
   sourcesStopped (snd (onMessage \<lparr>audioData = None, interrupted = True\<rparr> 2 (23 / 10)
     (run init [OnMessage \<lparr>audioData = Some (AudioBuffer 1), interrupted = False\<rparr> 1 2]))) = [1]"
  using interruption_flushes [of "\<lparr>audioData = None, interrupted = True\<rparr>" 2 "23 / 10"
     "run init [OnMessage \<lparr>audioData = Some (AudioBuffer 1), interrupted = False\<rparr> 1 2]"]
  by (simp add: onMessage_def Let_def schedule_fields init_def set_add_def)

text \<open>
  Claim C2 as stated fails: after an interruption handled with the clock at 2.3 the cursor
  is 0, not 2.3.
\<close>

theorem interruption_cursor_counterexample:
  "nextStartTimeRef (run init
     [OnMessage \<lparr>audioData = Some (AudioBuffer 1), interrupted = False\<rparr> 1 2,
      OnMessage \<lparr>audioData = None, interrupted = True\<rparr> 2 (23 / 10)]) \<noteq> 23 / 10"
  by (simp add: onMessage_def interrupt_fields)


lemma step_starts_from:
  assumes "arrives_from t e"
  shows "\<exists>new. sourcesStarted (step e s) = sourcesStarted s @ new \<and> (\<forall>x\<in>set new. t \<le> snd x)"
proof (cases e)
  case (OnMessage msg h t')
  with assms have le: "t \<le> t'" by simp
  show ?thesis
  proof (cases "audioData msg")
    case None
    with OnMessage show ?thesis by (simp add: onMessage_def interrupt_fields)
  next
    case (Some r)
    show ?thesis
    proof (cases r)
      case DecodeError
      with Some OnMessage show ?thesis by (simp add: onMessage_def)
    next
      case (AudioBuffer d)
      have "t \<le> max t' (nextStartTimeRef (s\<lparr>isAgentSpeaking := True\<rparr>))"
        using le by linarith
      with AudioBuffer Some OnMessage show ?thesis
        by (simp add: onMessage_def Let_def interrupt_fields schedule_started del: max.bounded_iff)
    qed
  qed
qed (simp_all add: quiet_handlers stopEverything_effects)

lemma run_starts_from:
  "\<forall>e\<in>set evs. arrives_from t e \<Longrightarrow>
     \<exists>new. sourcesStarted (run s evs) = sourcesStarted s @ new \<and> (\<forall>x\<in>set new. t \<le> snd x)"
proof (induction evs arbitrary: s)
  case Nil
  then show ?case by simp
next
  case (Cons e evs)
  then have e: "arrives_from t e" and rest: "\<forall>e\<in>set evs. arrives_from t e" by simp_all
  from step_starts_from [OF e, of s] obtain new1
    where n1: "sourcesStarted (step e s) = sourcesStarted s @ new1" "\<forall>x\<in>set new1. t \<le> snd x"
    by blast
  from Cons.IH [OF rest, of "step e s"] obtain new2
    where n2: "sourcesStarted (run (step e s) evs) = sourcesStarted (step e s) @ new2"
      "\<forall>x\<in>set new2. t \<le> snd x"
    by blast
  from n1 n2 have "sourcesStarted (run s (e # evs)) = sourcesStarted s @ (new1 @ new2)"
    by simp
  moreover from n1 n2 have "\<forall>x\<in>set (new1 @ new2). t \<le> snd x" by auto
  ultimately show ?case by blast
qed

text \<open>
  When the interruption is processed, that is when the audio of its message, if any,
  decodes, the sources started afterwards start no earlier than the clock reading \<open>t\<close> of
  the interruption, a chunk scheduled next starts at its own clock reading, and the
  schedule of every reset-free run that follows is the specification's from cursor 0.
\<close>

lemma starts_after_processed_interruption:
  assumes "interrupted msg" and "audioData msg \<noteq> Some DecodeError" and "0 \<le> t"
    and "\<forall>e\<in>set post. arrives_from t e"
  shows "(\<forall>x\<in>set (drop (length (sourcesStarted (step (OnMessage msg src t) s)))
                    (sourcesStarted (run (step (OnMessage msg src t) s) post))). t \<le> snd x) \<and>
         (\<forall>h t' d i. t \<le> t' \<longrightarrow>
            sourcesStarted (step (OnMessage \<lparr>audioData = Some (AudioBuffer d), interrupted = i\<rparr> h t')
                              (step (OnMessage msg src t) s)) =
              sourcesStarted (step (OnMessage msg src t) s) @ [(h, t')])"
proof
  from run_starts_from [OF assms(4), of "step (OnMessage msg src t) s"]
  show "\<forall>x\<in>set (drop (length (sourcesStarted (step (OnMessage msg src t) s)))
                    (sourcesStarted (run (step (OnMessage msg src t) s) post))). t \<le> snd x"
    by auto
next
  have cur: "nextStartTimeRef (step (OnMessage msg src t) s) = 0"
    using interruption_cursor [OF assms(1,2)] by simp
  show "\<forall>h t' d i. t \<le> t' \<longrightarrow>
            sourcesStarted (step (OnMessage \<lparr>audioData = Some (AudioBuffer d), interrupted = i\<rparr> h t')
                              (step (OnMessage msg src t) s)) =
              sourcesStarted (step (OnMessage msg src t) s) @ [(h, t')]"
  proof (intro allI impI)
    fix h t' d i
    assume "t \<le> t'"
    with assms(3) have "max t' 0 = t'" by simp
    with cur show "sourcesStarted (step (OnMessage \<lparr>audioData = Some (AudioBuffer d), interrupted = i\<rparr> h t')
                              (step (OnMessage msg src t) s)) =
              sourcesStarted (step (OnMessage msg src t) s) @ [(h, t')]"
      by (simp add: onMessage_def Let_def interrupt_fields schedule_started)
  qed
qed

lemma schedule_restarts_after_interruption:
  assumes "interrupted msg" and "audioData msg \<noteq> Some DecodeError"
    and "\<forall>e\<in>set post. \<not> resets e"
  shows "map snd (sourcesStarted (run (step (OnMessage msg src t) s) post)) =
           map snd (sourcesStarted (step (OnMessage msg src t) s)) @ spec_starts 0 (chunks post)"
proof -
  have "nextStartTimeRef (step (OnMessage msg src t) s) = 0"
    using interruption_cursor [OF assms(1,2)] by simp
  with run_starts [OF assms(3), of "step (OnMessage msg src t) s"] show ?thesis by simp
qed

text \<open>
  Claim C6 at its failing input, the scenario of the specification with \<open>t0 = 2\<close>. Chunk
  A of one second is scheduled at 2; the interruption arrives at 2.3 in a message whose
  audio fails to decode; chunk B arrives at 2.5. The throw on line 91 skips the
  interruption branch: A is not stopped, the cursor stays at 3, and B starts at 3, that
  is at \<open>t0 + 1.0\<close>. With the interruption in a message without audio, B starts at 2.5.
\<close>

theorem interruption_lost_on_decode_failure:
  "sourcesStarted (run init
     [OnMessage \<lparr>audioData = Some (AudioBuffer 1), interrupted = False\<rparr> 1 2,
      OnMessage \<lparr>audioData = Some DecodeError, interrupted = True\<rparr> 9 (23 / 10),
      OnMessage \<lparr>audioData = Some (AudioBuffer 1), interrupted = False\<rparr> 2 (5 / 2)]) =
     [(1, 2), (2, 3)] \<and>
   sourcesStopped (run init
     [OnMessage \<lparr>audioData = Some (AudioBuffer 1), interrupted = False\<rparr> 1 2,
      OnMessage \<lparr>audioData = Some DecodeError, interrupted = True\<rparr> 9 (23 / 10),
      OnMessage \<lparr>audioData = Some (AudioBuffer 1), interrupted = False\<rparr> 2 (5 / 2)]) = [] \<and>
   sourcesRef (run init
     [OnMessage \<lparr>audioData = Some (AudioBuffer 1), interrupted = False\<rparr> 1 2,
      OnMessage \<lparr>audioData = Some DecodeError, interrupted = True\<rparr> 9 (23 / 10),
      OnMessage \<lparr>audioData = Some (AudioBuffer 1), interrupted = False\<rparr> 2 (5 / 2)]) = [1, 2] \<and>
   sourcesStarted (run init
     [OnMessage \<lparr>audioData = Some (AudioBuffer 1), interrupted = False\<rparr> 1 2,
      OnMessage \<lparr>audioData = None, interrupted = True\<rparr> 9 (23 / 10),
      OnMessage \<lparr>audioData = Some (AudioBuffer 1), interrupted = False\<rparr> 2 (5 / 2)]) =
     [(1, 2), (2, 5 / 2)]"
  by (simp add: onMessage_def Let_def interrupt_fields schedule_started schedule_cursor
        schedule_fields set_add_def init_def)

text \<open>
  Claim C5 at its failing input. A message whose audio fails to decode leaves the cursor
  and the active set alone and the handler's promise rejected, but \<open>isAgentSpeaking\<close> has
  been set before the decoding and stays: from the initial state the flag is true while
  the active set is empty.
\<close>

theorem decode_failure_sets_flag:
  "onMessage \<lparr>audioData = Some DecodeError, interrupted = i\<rparr> h t s =
     (Rejected, s\<lparr>isAgentSpeaking := True\<rparr>) \<and>
   isAgentSpeaking (snd (onMessage \<lparr>audioData = Some DecodeError, interrupted = False\<rparr> 1 0 init)) \<noteq>
     isAgentSpeaking init \<and>
   sourcesRef (snd (onMessage \<lparr>audioData = Some DecodeError, interrupted = False\<rparr> 1 0 init)) = []"
  by (simp add: onMessage_def init_def)

lemma set_add_not_Nil: "set_add h xs \<noteq> []"
  by (cases xs) (simp_all add: set_add_def)

lemma step_agent_flag:
  assumes "decodes e" and "isAgentSpeaking s = (sourcesRef s \<noteq> [])"
  shows "isAgentSpeaking (step e s) = (sourcesRef (step e s) \<noteq> [])"
proof (cases e)
  case (OnMessage msg h t)
  with assms(1) have ok: "audioData msg \<noteq> Some DecodeError" by simp
  show ?thesis
  proof (cases "audioData msg")
    case None
    with OnMessage assms(2) show ?thesis by (simp add: onMessage_def interrupt_fields)
  next
    case (Some r)
    with ok obtain d where "r = AudioBuffer d" by (cases r) auto
    with Some OnMessage show ?thesis
      by (simp add: onMessage_def Let_def interrupt_fields schedule_fields set_add_not_Nil)
  qed
next
  case (OnEnded h)
  with assms(2) show ?thesis
    by (cases "set_delete h (sourcesRef s) = []") (auto simp: onended_def Let_def set_delete_def)
qed (use assms(2) in \<open>simp_all add: startSession_begin_def startSession_granted_def onOpen_def
       onaudioprocess_def Let_def stopEverything_flags split: option.split\<close>)

lemma agent_flag_tracks_sources:
  "\<forall>e\<in>set evs. decodes e \<Longrightarrow> isAgentSpeaking s = (sourcesRef s \<noteq> []) \<Longrightarrow>
     isAgentSpeaking (run s evs) = (sourcesRef (run s evs) \<noteq> [])"
proof (induction evs arbitrary: s)
  case Nil
  then show ?case by simp
next
  case (Cons e evs)
  then have "decodes e" and "\<forall>e\<in>set evs. decodes e" by simp_all
  with Cons.IH [of "step e s"] step_agent_flag [of e s] Cons.prems(2) show ?case by simp
qed

text \<open>
  Claim C7 at its failing input: one message whose audio fails to decode, from the initial
  state. The flag is true and the active set is empty. By \<open>agent_flag_tracks_sources\<close>
  no run of whole handler calls without a failed decoding parts the two.
\<close>

theorem agent_flag_stuck_after_decode_failure:
  "isAgentSpeaking (run init [OnMessage \<lparr>audioData = Some DecodeError, interrupted = False\<rparr> 1 0]) \<and>
   sourcesRef (run init [OnMessage \<lparr>audioData = Some DecodeError, interrupted = False\<rparr> 1 0]) = [] \<and>
   \<not> decodes (OnMessage \<lparr>audioData = Some DecodeError, interrupted = False\<rparr> 1 0)"
  by (simp add: onMessage_def init_def)

section \<open>Acquisition and release of the capture resources\<close>

lemma capture_refs_kept:
  "sourceRef (startSession_begin c out s) = sourceRef s"
  "processorRef (startSession_begin c out s) = processorRef s"
  "mediaStreamRef (startSession_begin c out s) = mediaStreamRef s"
  "sourceRef (startSession_granted m se s) = sourceRef s"
  "processorRef (startSession_granted m se s) = processorRef s"
  "mediaStreamRef (onOpen n p s) = mediaStreamRef s"
  "sourceRef (onaudioprocess f s) = sourceRef s"
  "processorRef (onaudioprocess f s) = processorRef s"
  "mediaStreamRef (onaudioprocess f s) = mediaStreamRef s"
  "sourceRef (onended h s) = sourceRef s"
  "processorRef (onended h s) = processorRef s"
  "mediaStreamRef (onended h s) = mediaStreamRef s"
  "sourceRef (snd (onMessage msg h t s)) = sourceRef s"
  "processorRef (snd (onMessage msg h t s)) = processorRef s"
  "mediaStreamRef (snd (onMessage msg h t s)) = mediaStreamRef s"
  by (simp_all add: startSession_begin_def startSession_granted_def onOpen_def
        onaudioprocess_def onended_def onMessage_def schedule_def interrupt_def Let_def
        split: option.split decoded.split)

lemma step_graph:
  assumes "sourceRef (step e s) \<noteq> None \<or> processorRef (step e s) \<noteq> None"
  shows "is_open e \<or> sourceRef s \<noteq> None \<or> processorRef s \<noteq> None"
  using assms by (cases e) (simp_all add: capture_refs_kept stopEverything_refs)

lemma run_graph:
  "sourceRef (run s evs) \<noteq> None \<or> processorRef (run s evs) \<noteq> None \<Longrightarrow>
     (\<exists>e\<in>set evs. is_open e) \<or> sourceRef s \<noteq> None \<or> processorRef s \<noteq> None"
proof (induction evs arbitrary: s)
  case Nil
  then show ?case by simp
next
  case (Cons e evs)
  from Cons.IH [of "step e s"] Cons.prems
  have "(\<exists>e\<in>set evs. is_open e) \<or> sourceRef (step e s) \<noteq> None \<or> processorRef (step e s) \<noteq> None"
    by simp
  with step_graph [of e s] show ?case by auto
qed

lemma step_stream:
  assumes "mediaStreamRef (step e s) \<noteq> None"
  shows "is_granted e \<or> mediaStreamRef s \<noteq> None"
  using assms by (cases e) (simp_all add: capture_refs_kept stopEverything_refs)

lemma run_stream:
  "mediaStreamRef (run s evs) \<noteq> None \<Longrightarrow> (\<exists>e\<in>set evs. is_granted e) \<or> mediaStreamRef s \<noteq> None"
proof (induction evs arbitrary: s)
  case Nil
  then show ?case by simp
next
  case (Cons e evs)
  from Cons.IH [of "step e s"] Cons.prems
  have "(\<exists>e\<in>set evs. is_granted e) \<or> mediaStreamRef (step e s) \<noteq> None" by simp
  with step_stream [of e s] show ?case by auto
qed

text \<open>
  Claim C3, as the code has it. In every run from the initial state, the capture graph
  (\<open>sourceRef\<close>, \<open>processorRef\<close>) exists only if \<^verbatim>\<open>onOpen\<close> has run, and the stream is held
  only if a microphone request has been granted; the grant stores the stream at once, before
  any \<^verbatim>\<open>onOpen\<close>. \<^verbatim>\<open>stopEverything\<close> stops the tracks of the stream held and clears
  the reference.
\<close>

theorem capture_graph_only_after_open:
  "(sourceRef (run init evs) \<noteq> None \<or> processorRef (run init evs) \<noteq> None \<longrightarrow>
      (\<exists>e\<in>set evs. is_open e)) \<and>
   (mediaStreamRef (run init evs) \<noteq> None \<longrightarrow> (\<exists>e\<in>set evs. is_granted e)) \<and>
   mediaStreamRef (startSession_granted stream session s) = Some stream \<and>
   mediaStreamRef (stopEverything s) = None \<and>
   tracksStopped (stopEverything s) = tracksStopped s @ held (mediaStreamRef s)"
proof (intro conjI impI)
  assume "sourceRef (run init evs) \<noteq> None \<or> processorRef (run init evs) \<noteq> None"
  from run_graph [OF this] show "\<exists>e\<in>set evs. is_open e" by (simp add: init_def)
next
  assume "mediaStreamRef (run init evs) \<noteq> None"
  from run_stream [OF this] show "\<exists>e\<in>set evs. is_granted e" by (simp add: init_def)
qed (simp_all add: startSession_granted_def stopEverything_refs stopEverything_effects)

text \<open>
  A session that starts, gets the microphone and opens.
\<close>

theorem capture_graph_only_after_open_witness:
  "sourceRef (run init [StartSession 1 2, MicGranted 3 4, OnOpen 5 6]) = Some 5 \<and>
   mediaStreamRef (run init [StartSession 1 2, MicGranted 3 4, OnOpen 5 6]) = Some 3 \<and>
   list_ex is_open [StartSession 1 2, MicGranted 3 4, OnOpen 5 6] \<and>
   list_ex is_granted [StartSession 1 2, MicGranted 3 4, OnOpen 5 6]"
proof -
  let ?evs = "[StartSession 1 2, MicGranted 3 4, OnOpen 5 6]"
  have a: "sourceRef (run init ?evs) = Some 5" "mediaStreamRef (run init ?evs) = Some 3"
    by (simp_all add: startSession_begin_def startSession_granted_def onOpen_def Let_def init_def)
  note t = capture_graph_only_after_open [of ?evs]
  from t have i1: "sourceRef (run init ?evs) \<noteq> None \<or> processorRef (run init ?evs) \<noteq> None \<longrightarrow>
      (\<exists>e\<in>set ?evs. is_open e)"
    by (rule conjunct1)
  from a have p1: "sourceRef (run init ?evs) \<noteq> None \<or> processorRef (run init ?evs) \<noteq> None"
    by simp
  from i1 p1 have "\<exists>e\<in>set ?evs. is_open e" by (rule mp)
  then have b: "list_ex is_open ?evs" by (simp only: list_ex_iff)
  from t have i2: "mediaStreamRef (run init ?evs) \<noteq> None \<longrightarrow> (\<exists>e\<in>set ?evs. is_granted e)"
    by (rule conjunct1 [OF conjunct2])
  from a have p2: "mediaStreamRef (run init ?evs) \<noteq> None" by simp
  from i2 p2 have "\<exists>e\<in>set ?evs. is_granted e" by (rule mp)
  then have c: "list_ex is_granted ?evs" by (simp only: list_ex_iff)
  from a b c show ?thesis by (intro conjI)
qed

text \<open>
  Claim C3 as stated fails: once the microphone is granted the stream is held although
  \<^verbatim>\<open>onOpen\<close> has not run. And a stop that comes while the request is pending releases
  nothing: the grant that follows stores the stream, with no track stopped.
\<close>

theorem capture_before_open_counterexample:
  "mediaStreamRef (run init [StartSession 1 2, MicGranted 3 4]) = Some 3 \<and>
   \<not> list_ex is_open [StartSession 1 2, MicGranted 3 4] \<and>
   \<not> isConnected (run init [StartSession 1 2, MicGranted 3 4]) \<and>
   mediaStreamRef (run init [StartSession 1 2, Stop, MicGranted 3 4]) = Some 3 \<and>
   tracksStopped (run init [StartSession 1 2, Stop, MicGranted 3 4]) = []"
  by (simp add: startSession_begin_def startSession_granted_def init_def
        stopEverything_def Let_def)

lemma set_set_add: "set (set_add h xs) = insert h (set xs)"
  by (auto simp: set_add_def)

lemma step_sources_started:
  assumes "set (sourcesRef s) \<subseteq> fst ` set (sourcesStarted s)"
  shows "set (sourcesRef (step e s)) \<subseteq> fst ` set (sourcesStarted (step e s))"
proof (cases e)
  case (OnMessage msg h t)
  show ?thesis
  proof (cases "audioData msg")
    case None
    with OnMessage assms show ?thesis by (simp add: onMessage_def interrupt_fields)
  next
    case (Some r)
    show ?thesis
    proof (cases r)
      case DecodeError
      with Some OnMessage assms show ?thesis by (simp add: onMessage_def)
    next
      case (AudioBuffer d)
      with Some OnMessage assms show ?thesis
        by (auto simp: onMessage_def Let_def interrupt_fields schedule_fields schedule_started
              set_set_add)
    qed
  qed
next
  case (OnEnded h)
  with assms show ?thesis by (auto simp: onended_def Let_def set_delete_def)
qed (use assms in \<open>simp_all add: quiet_handlers stopEverything_flags stopEverything_effects
       startSession_begin_def startSession_granted_def onOpen_def onaudioprocess_def Let_def
       split: option.split\<close>)

lemma run_sources_started:
  "set (sourcesRef s) \<subseteq> fst ` set (sourcesStarted s) \<Longrightarrow>
     set (sourcesRef (run s evs)) \<subseteq> fst ` set (sourcesStarted (run s evs))"
proof (induction evs arbitrary: s)
  case Nil
  then show ?case by simp
next
  case (Cons e evs)
  from Cons.IH [OF step_sources_started [OF Cons.prems, of e]] show ?case by simp
qed

text \<open>
  Claim C4, as the code has it. \<^verbatim>\<open>stopEverything\<close> is idempotent. After it the four
  capture references are empty, what they held has been stopped, disconnected or closed,
  the active set is empty with each of its sources stopped, the three flags are false and
  the cursor is 0. The session reference and the output context are left as they were.
  In every run from the initial state each source of the active set has been started, so
  that none of the \<^verbatim>\<open>stop()\<close> calls can raise.
\<close>

theorem stopEverything_teardown:
  "stopEverything (stopEverything s) = stopEverything s \<and>
   mediaStreamRef (stopEverything s) = None \<and>
   processorRef (stopEverything s) = None \<and>
   sourceRef (stopEverything s) = None \<and>
   audioContextRef (stopEverything s) = None \<and>
   tracksStopped (stopEverything s) = tracksStopped s @ held (mediaStreamRef s) \<and>
   nodesDisconnected (stopEverything s) =
     nodesDisconnected s @ held (processorRef s) @ held (sourceRef s) \<and>
   contextsClosed (stopEverything s) = contextsClosed s @ held (audioContextRef s) \<and>
   sourcesRef (stopEverything s) = [] \<and>
   sourcesStopped (stopEverything s) = sourcesStopped s @ sourcesRef s \<and>
   \<not> isConnected (stopEverything s) \<and>
   \<not> isSpeaking (stopEverything s) \<and>
   \<not> isAgentSpeaking (stopEverything s) \<and>
   nextStartTimeRef (stopEverything s) = 0 \<and>
   sessionRef (stopEverything s) = sessionRef s \<and>
   outputContext (stopEverything s) = outputContext s \<and>
   set (sourcesRef (run init evs)) \<subseteq> fst ` set (sourcesStarted (run init evs))"
proof -
  have "set (sourcesRef (run init evs)) \<subseteq> fst ` set (sourcesStarted (run init evs))"
    by (rule run_sources_started) (simp add: init_def)
  then show ?thesis
    by (simp add: stopEverything_idem stopEverything_refs stopEverything_flags
          stopEverything_effects)
qed

text \<open>
  Teardown of an open session.
\<close>

theorem stopEverything_teardown_witness:
  "stopEverything (stopEverything (run init [StartSession 1 2, MicGranted 3 4, OnOpen 5 6])) =
     stopEverything (run init [StartSession 1 2, MicGranted 3 4, OnOpen 5 6]) \<and>
   tracksStopped (stopEverything (run init [StartSession 1 2, MicGranted 3 4, OnOpen 5 6])) = [3] \<and>
   nodesDisconnected (stopEverything (run init [StartSession 1 2, MicGranted 3 4, OnOpen 5 6])) = [6, 5]"
proof -
  let ?s = "run init [StartSession 1 2, MicGranted 3 4, OnOpen 5 6]"
  have r: "mediaStreamRef ?s = Some 3" "processorRef ?s = Some 6" "sourceRef ?s = Some 5"
    "tracksStopped ?s = []" "nodesDisconnected ?s = []"
    by (simp_all add: startSession_begin_def startSession_granted_def onOpen_def Let_def init_def)
  from stopEverything_teardown [of ?s "[]"] r show ?thesis by simp
qed

text \<open>
  Claim C4 as stated fails: after the teardown of an open session the session promise is
  still referenced, the output context is still there, and the only context closed is the
  input one.
\<close>

theorem stopEverything_leaves_session_counterexample:
  "sessionRef (stopEverything (run init [StartSession 1 2, MicGranted 3 4, OnOpen 5 6])) = Some 4 \<and>
   outputContext (stopEverything (run init [StartSession 1 2, MicGranted 3 4, OnOpen 5 6])) = Some 2 \<and>
   contextsClosed (stopEverything (run init [StartSession 1 2, MicGranted 3 4, OnOpen 5 6])) = [1]"
  by (simp add: stopEverything_refs stopEverything_effects
        startSession_begin_def startSession_granted_def onOpen_def Let_def init_def)

section \<open>The speech-activity signal\<close>

lemma bits_le: "(bits n \<le> b) = (n < 2 ^ b)"
proof (induction n arbitrary: b rule: bits.induct)
  case (1 n)
  show ?case
  proof (cases "n = 0")
    case True
    then show ?thesis by (simp add: bits.simps)
  next
    case False
    show ?thesis
    proof (cases b)
      case 0
      with False show ?thesis by (simp add: bits.simps [of n])
    next
      case (Suc c)
      from False have "(bits n \<le> Suc c) = (bits (n div 2) \<le> c)"
        by (simp add: bits.simps [of n])
      also from "1.IH" [OF False, of c] have "\<dots> = (n div 2 < 2 ^ c)" .
      also have "\<dots> = (n < 2 ^ Suc c)" by auto
      finally show ?thesis using Suc by simp
    qed
  qed
qed

lemma bits_eq:
  assumes "2 ^ b \<le> n" and "n < 2 ^ Suc b"
  shows "bits n = Suc b"
proof -
  from assms(2) have "bits n \<le> Suc b" by (simp only: bits_le)
  moreover from assms(1) have "\<not> bits n \<le> b" by (simp only: bits_le not_less)
  ultimately show ?thesis by simp
qed

lemma round_double_exact:
  assumes "k < 2 ^ 53"
  shows "round_double (k * 2 ^ t) = k * 2 ^ t"
proof (cases "bits (k * 2 ^ t) \<le> 53")
  case True
  then show ?thesis by (simp add: round_double_def)
next
  case False
  define s where "s = bits (k * 2 ^ t) - 53"
  from assms have "k * 2 ^ t < 2 ^ (53 + t)" by (simp add: power_add)
  then have "bits (k * 2 ^ t) \<le> 53 + t" by (simp only: bits_le)
  then have st: "s \<le> t" by (simp add: s_def)
  then have "(2::nat) ^ s dvd 2 ^ t" by (rule le_imp_power_dvd)
  then have dvd: "2 ^ s dvd k * 2 ^ t" by (rule dvd_mult)
  then have r: "(k * 2 ^ t) mod 2 ^ s = 0" by (simp add: mod_eq_0_iff_dvd)
  from dvd have q: "(k * 2 ^ t) div 2 ^ s * 2 ^ s = k * 2 ^ t" by (rule dvd_div_mult_self)
  from False r q show ?thesis by (simp add: round_double_def Let_def s_def [symmetric])
qed

lemma round_double_split:
  assumes "2 ^ 52 \<le> q" and "q < 2 ^ 53" and "r < 2 ^ s" and "0 < s"
  shows "round_double (q * 2 ^ s + r) =
           (if r > 2 ^ (s - 1) \<or> (r = 2 ^ (s - 1) \<and> odd q) then q + 1 else q) * 2 ^ s"
proof -
  let ?x = "q * 2 ^ s + r"
  from assms(1) have "(2::nat) ^ 52 * 2 ^ s \<le> q * 2 ^ s" by (rule mult_le_mono1)
  then have "(2::nat) ^ (52 + s) \<le> q * 2 ^ s" by (simp only: power_add)
  then have lo: "2 ^ (52 + s) \<le> ?x" by (rule trans_le_add1)
  from assms(2) have "Suc q \<le> 2 ^ 53" by simp
  then have le: "Suc q * 2 ^ s \<le> 2 ^ 53 * 2 ^ s" by (rule mult_le_mono1)
  from assms(3) have "?x < Suc q * 2 ^ s" by simp
  from this le have "?x < 2 ^ 53 * 2 ^ s" by (rule less_le_trans)
  moreover have "(2::nat) ^ 53 * 2 ^ s = 2 ^ Suc (52 + s)" by (simp add: power_add)
  ultimately have hi: "?x < 2 ^ Suc (52 + s)" by (simp only:)
  from bits_eq [OF lo hi] have b: "bits ?x = 53 + s" by simp
  from assms(3) have d: "?x div 2 ^ s = q" by simp
  from assms(3) have m: "?x mod 2 ^ s = r" by simp
  from assms(4) have "\<not> 53 + s \<le> 53" by simp
  then show ?thesis unfolding round_double_def b Let_def by (simp only: if_False diff_add_inverse d m)
qed

lemma sum_abs_exact_from:
  assumes "\<forall>x\<in>set xs. 2 ^ t dvd x" and "2 ^ t dvd a"
    and "a + (\<Sum>x\<leftarrow>xs. nat \<bar>x\<bar>) < 2 ^ 53 * 2 ^ t"
  shows "foldl (\<lambda>a b. round_double (a + nat \<bar>b\<bar>)) a xs = a + (\<Sum>x\<leftarrow>xs. nat \<bar>x\<bar>)"
  using assms
proof (induction xs arbitrary: a)
  case Nil
  then show ?case by simp
next
  case (Cons x xs)
  from Cons.prems(1) have "2 ^ t dvd x" by simp
  then have "2 ^ t dvd \<bar>x\<bar>" by simp
  then have dx: "2 ^ t dvd nat \<bar>x\<bar>"
    by (metis abs_ge_zero nat_0_le of_nat_dvd_iff of_nat_numeral of_nat_power)
  with Cons.prems(2) have "2 ^ t dvd a + nat \<bar>x\<bar>" by (rule dvd_add)
  then obtain k where k: "a + nat \<bar>x\<bar> = k * 2 ^ t" by (auto simp: dvd_def mult.commute)
  from Cons.prems(3) have "a + nat \<bar>x\<bar> < 2 ^ 53 * 2 ^ t" by simp
  with k have "k < 2 ^ 53" by simp
  from round_double_exact [OF this, of t] k
  have ex: "round_double (a + nat \<bar>x\<bar>) = a + nat \<bar>x\<bar>" by simp
  from Cons.prems(1) have rest: "\<forall>x\<in>set xs. 2 ^ t dvd x" by simp
  from Cons.prems(3) have bound: "(a + nat \<bar>x\<bar>) + (\<Sum>x\<leftarrow>xs. nat \<bar>x\<bar>) < 2 ^ 53 * 2 ^ t"
    by (simp add: add.assoc)
  from Cons.IH [OF rest \<open>2 ^ t dvd a + nat \<bar>x\<bar>\<close> bound] ex show ?case
    by (simp add: add.assoc)
qed

lemma sum_abs_exact:
  assumes "\<forall>x\<in>set xs. 2 ^ t dvd x" and "(\<Sum>x\<leftarrow>xs. nat \<bar>x\<bar>) < 2 ^ 53 * 2 ^ t"
  shows "sum_abs xs = (\<Sum>x\<leftarrow>xs. nat \<bar>x\<bar>)"
  using sum_abs_exact_from [of xs t 0] assms by (simp add: sum_abs_def)

lemma isSpeaking_onaudioprocess:
  "isSpeaking (onaudioprocess frame s) = (sum_abs frame > 10 * 2 ^ 149)"
  by (simp add: onaudioprocess_def Let_def split: option.split)

lemma sum_sample_values:
  "(\<Sum>x\<leftarrow>frame. \<bar>sample_value x\<bar>) = real (\<Sum>x\<leftarrow>frame. nat \<bar>x\<bar>) / 2 ^ 149"
  by (induction frame) (simp_all add: sample_value_def add_divide_distrib)

lemma exceeds_scaled:
  fixes n u S :: real
  assumes "0 < n" and "0 < u"
  shows "(10 / n < S / u / n) = (10 * u < S)"
  using assms by (simp add: divide_less_cancel pos_less_divide_eq)

lemma mean_exceeds:
  assumes "length frame = frameSize"
  shows "(spec_mean_abs frame > 10 / real frameSize) = ((\<Sum>x\<leftarrow>frame. nat \<bar>x\<bar>) > 10 * 2 ^ 149)"
proof -
  have pos: "0 < real frameSize" by (simp add: frameSize_def)
  have u: "(0::real) < 2 ^ 149" by (rule zero_less_power) simp
  have "spec_mean_abs frame = real (\<Sum>x\<leftarrow>frame. nat \<bar>x\<bar>) / 2 ^ 149 / real frameSize"
    by (simp only: spec_mean_abs_def sum_sample_values assms)
  then have "(spec_mean_abs frame > 10 / real frameSize) =
        (10 * 2 ^ 149 < real (\<Sum>x\<leftarrow>frame. nat \<bar>x\<bar>))"
    by (simp only: exceeds_scaled [OF pos u])
  also have "(10 * 2 ^ 149 :: real) = real (10 * 2 ^ 149)" by simp
  finally show ?thesis by (simp only: of_nat_less_iff)
qed

lemma float32_grid:
  assumes "is_float32 a"
  shows "\<exists>m t. nat \<bar>a\<bar> = m * 2 ^ t \<and> m < 2 ^ 24"
proof (cases "bits (nat \<bar>a\<bar>) \<le> 24")
  case True
  then have "nat \<bar>a\<bar> < 2 ^ 24" by (simp only: bits_le)
  then have "nat \<bar>a\<bar> = nat \<bar>a\<bar> * 2 ^ 0 \<and> nat \<bar>a\<bar> < 2 ^ 24" by simp
  then show ?thesis by blast
next
  case False
  define t where "t = bits (nat \<bar>a\<bar>) - 24"
  from assms False have "nat \<bar>a\<bar> mod 2 ^ t = 0"
    by (simp add: is_float32_def Let_def t_def)
  then have eq: "nat \<bar>a\<bar> = nat \<bar>a\<bar> div 2 ^ t * 2 ^ t" by (simp add: mod_eq_0_iff_dvd)
  have "bits (nat \<bar>a\<bar>) \<le> 24 + t" using False by (simp add: t_def)
  then have "nat \<bar>a\<bar> < 2 ^ (24 + t)" by (simp only: bits_le)
  then have "nat \<bar>a\<bar> < 2 ^ 24 * 2 ^ t" by (simp add: power_add)
  then have "nat \<bar>a\<bar> div 2 ^ t < 2 ^ 24" by (simp add: less_mult_imp_div_less)
  with eq show ?thesis by blast
qed

lemma float32I:
  assumes "m < 2 ^ 24" and "t \<le> 253"
  shows "is_float32 (int (m * 2 ^ t))"
proof -
  let ?a = "m * 2 ^ t"
  from assms(1) have "?a < 2 ^ 24 * 2 ^ t" by simp
  then have "?a < 2 ^ (24 + t)" by (simp only: power_add)
  then have k: "bits ?a \<le> 24 + t" by (simp only: bits_le)
  with assms(2) have k277: "bits ?a \<le> 277" by simp
  from k have "bits ?a - 24 \<le> t" by simp
  then have "(2::nat) ^ (bits ?a - 24) dvd 2 ^ t" by (rule le_imp_power_dvd)
  then have "2 ^ (bits ?a - 24) dvd ?a" by (rule dvd_mult)
  then have "?a mod 2 ^ (bits ?a - 24) = 0" by (simp only: mod_eq_0_iff_dvd)
  then have "bits ?a \<le> 277 \<and> (bits ?a \<le> 24 \<or> ?a mod 2 ^ (bits ?a - 24) = 0)"
    using k277 by simp
  moreover have "nat \<bar>int ?a\<bar> = ?a" by (simp only: abs_of_nat nat_int)
  ultimately show ?thesis by (simp only: is_float32_def Let_def)
qed

lemma constant_frame_exact:
  assumes "is_float32 a"
  shows "sum_abs (replicate frameSize a) = frameSize * nat \<bar>a\<bar>"
proof -
  from float32_grid [OF assms] obtain m t where mt: "nat \<bar>a\<bar> = m * 2 ^ t" "m < 2 ^ 24"
    by blast
  have tot: "(\<Sum>x\<leftarrow>replicate frameSize a. nat \<bar>x\<bar>) = frameSize * nat \<bar>a\<bar>"
    by (simp add: sum_list_replicate)
  from mt(2) have "frameSize * m < 2 ^ 53" by (simp add: frameSize_def)
  then have "frameSize * m * 2 ^ t < 2 ^ 53 * 2 ^ t" by simp
  then have "frameSize * (m * 2 ^ t) < 2 ^ 53 * 2 ^ t" by (simp only: mult.assoc)
  then have "frameSize * nat \<bar>a\<bar> < 2 ^ 53 * 2 ^ t" by (simp only: mt(1))
  then have bound: "(\<Sum>x\<leftarrow>replicate frameSize a. nat \<bar>x\<bar>) < 2 ^ 53 * 2 ^ t"
    by (simp only: tot)
  from mt(1) have "2 ^ t dvd nat \<bar>a\<bar>" by simp
  then have "2 ^ t dvd \<bar>a\<bar>"
    by (metis abs_ge_zero nat_0_le of_nat_dvd_iff of_nat_numeral of_nat_power)
  then have "2 ^ t dvd a" by simp
  then have grid: "\<forall>x\<in>set (replicate frameSize a). 2 ^ t dvd x" by simp
  from sum_abs_exact [OF grid bound] tot show ?thesis by simp
qed

text \<open>
  Claim C8, as the code has it. A frame of zeros clears the flag. A frame of the
  processor's size filled with one Float32 amplitude sets the flag exactly when the
  absolute amplitude exceeds 10 / 4096. More generally, for a frame of that size whose
  samples are all multiples of one power of two and add up to fewer than \<open>2 ^ 53\<close> such
  steps, no addition rounds, and the flag is set exactly when the mean absolute amplitude
  exceeds 10 / 4096. In every case the flag is the comparison with 10 of the sum as the
  doubles accumulate it, which is not a function of the mean.
\<close>

theorem user_speaking_signal:
  "\<not> isSpeaking (onaudioprocess (replicate frameSize 0) s) \<and>
   (is_float32 a \<longrightarrow>
      isSpeaking (onaudioprocess (replicate frameSize a) s) =
        (\<bar>sample_value a\<bar> > 10 / real frameSize)) \<and>
   (length frame = frameSize \<and> (\<forall>x\<in>set frame. 2 ^ t dvd x) \<and>
    (\<Sum>x\<leftarrow>frame. nat \<bar>x\<bar>) < 2 ^ 53 * 2 ^ t \<longrightarrow>
      isSpeaking (onaudioprocess frame s) = (spec_mean_abs frame > 10 / real frameSize)) \<and>
   isSpeaking (onaudioprocess frame s) = (sample_value (int (sum_abs frame)) > 10)"
proof (intro conjI impI)
  have "sum_abs (replicate frameSize 0) = (\<Sum>x\<leftarrow>replicate frameSize (0::int). nat \<bar>x\<bar>)"
    by (rule sum_abs_exact [of _ 0]) (simp_all add: sum_list_replicate)
  then show "\<not> isSpeaking (onaudioprocess (replicate frameSize 0) s)"
    by (simp add: isSpeaking_onaudioprocess sum_list_replicate)
next
  assume fl: "is_float32 a"
  have len: "length (replicate frameSize a) = frameSize" by simp
  have tot: "(\<Sum>x\<leftarrow>replicate frameSize a. nat \<bar>x\<bar>) = frameSize * nat \<bar>a\<bar>"
    by (simp add: sum_list_replicate)
  have "spec_mean_abs (replicate frameSize a) = \<bar>sample_value a\<bar>"
    by (simp add: spec_mean_abs_def sum_list_replicate frameSize_def)
  with mean_exceeds [OF len] tot
  have "(\<bar>sample_value a\<bar> > 10 / real frameSize) = (frameSize * nat \<bar>a\<bar> > 10 * 2 ^ 149)"
    by simp
  then show "isSpeaking (onaudioprocess (replicate frameSize a) s) =
        (\<bar>sample_value a\<bar> > 10 / real frameSize)"
    by (simp add: isSpeaking_onaudioprocess constant_frame_exact [OF fl])
next
  assume h: "length frame = frameSize \<and> (\<forall>x\<in>set frame. 2 ^ t dvd x) \<and>
    (\<Sum>x\<leftarrow>frame. nat \<bar>x\<bar>) < 2 ^ 53 * 2 ^ t"
  then have len: "length frame = frameSize" and grid: "\<forall>x\<in>set frame. 2 ^ t dvd x"
    and bound: "(\<Sum>x\<leftarrow>frame. nat \<bar>x\<bar>) < 2 ^ 53 * 2 ^ t" by blast+
  from sum_abs_exact [OF grid bound] mean_exceeds [OF len]
  show "isSpeaking (onaudioprocess frame s) = (spec_mean_abs frame > 10 / real frameSize)"
    by (simp add: isSpeaking_onaudioprocess)
next
  have "(sample_value (int (sum_abs frame)) > 10) = (10 * 2 ^ 149 < real (sum_abs frame))"
    by (simp add: sample_value_def pos_less_divide_eq)
  also have "\<dots> = (real (10 * 2 ^ 149) < real (sum_abs frame))" by simp
  also have "\<dots> = (10 * 2 ^ 149 < sum_abs frame)" by (simp only: of_nat_less_iff)
  finally show "isSpeaking (onaudioprocess frame s) = (sample_value (int (sum_abs frame)) > 10)"
    by (simp add: isSpeaking_onaudioprocess)
qed


text \<open>
  A frame of 4096 samples of amplitude 1/2, and the silent frame.
\<close>

theorem user_speaking_signal_witness:
  "is_float32 (2 ^ 148) \<and>
   isSpeaking (onaudioprocess (replicate frameSize (2 ^ 148)) init) \<and>
   \<bar>sample_value (2 ^ 148)\<bar> > 10 / real frameSize \<and>
   spec_mean_abs (replicate frameSize (2 ^ 148)) > 10 / real frameSize \<and>
   \<not> isSpeaking (onaudioprocess (replicate frameSize 0) init)"
proof -
  let ?frame = "replicate frameSize (2 ^ 148 :: int)"
  note t = user_speaking_signal [of init "2 ^ 148" ?frame 148]
  have "is_float32 (int (1 * 2 ^ 148))" by (rule float32I) simp_all
  then have fl: "is_float32 (2 ^ 148)" by simp
  have "sample_value (2 ^ 148) = 1 / 2" by (simp add: sample_value_def)
  then have v: "\<bar>sample_value (2 ^ 148)\<bar> > 10 / real frameSize" by (simp add: frameSize_def)
  from t have "is_float32 (2 ^ 148) \<longrightarrow>
      isSpeaking (onaudioprocess ?frame init) = (\<bar>sample_value (2 ^ 148)\<bar> > 10 / real frameSize)"
    by (rule conjunct1 [OF conjunct2])
  with fl v have a: "isSpeaking (onaudioprocess ?frame init)" by simp
  have "frameSize * 2 ^ 148 < 2 ^ 53 * 2 ^ 148" by (simp add: frameSize_def)
  moreover have "(\<Sum>x\<leftarrow>?frame. nat \<bar>x\<bar>) = frameSize * 2 ^ 148"
    by (simp add: sum_list_replicate nat_power_eq)
  ultimately have "(\<Sum>x\<leftarrow>?frame. nat \<bar>x\<bar>) < 2 ^ 53 * 2 ^ 148" by (simp only:)
  then have h: "length ?frame = frameSize \<and> (\<forall>x\<in>set ?frame. 2 ^ 148 dvd x) \<and>
    (\<Sum>x\<leftarrow>?frame. nat \<bar>x\<bar>) < 2 ^ 53 * 2 ^ 148"
    by simp
  from t have "length ?frame = frameSize \<and> (\<forall>x\<in>set ?frame. 2 ^ 148 dvd x) \<and>
    (\<Sum>x\<leftarrow>?frame. nat \<bar>x\<bar>) < 2 ^ 53 * 2 ^ 148 \<longrightarrow>
      isSpeaking (onaudioprocess ?frame init) = (spec_mean_abs ?frame > 10 / real frameSize)"
    by (rule conjunct1 [OF conjunct2 [OF conjunct2]])
  with h a have b: "spec_mean_abs ?frame > 10 / real frameSize" by simp
  from t have c: "\<not> isSpeaking (onaudioprocess (replicate frameSize 0) init)"
    by (rule conjunct1)
  from fl a v b c show ?thesis by (intro conjI)
qed

lemma sum_abs_append:
  "sum_abs (xs @ ys) = foldl (\<lambda>a b. round_double (a + nat \<bar>b\<bar>)) (sum_abs xs) ys"
  by (simp add: sum_abs_def)

lemma foldl_absorbed:
  "round_double (a + nat \<bar>x\<bar>) = a \<Longrightarrow>
     foldl (\<lambda>a b. round_double (a + nat \<bar>b\<bar>)) a (replicate n x) = a"
  by (induction n) simp_all

lemma ten_ones: "sum_abs (replicate 10 (2 ^ 149)) = 10 * 2 ^ 149"
proof -
  have "(10::nat) * 2 ^ 149 < 2 ^ 53 * 2 ^ 149" by simp
  then have "sum_abs (replicate 10 (2 ^ 149)) = (\<Sum>x\<leftarrow>replicate 10 (2 ^ 149 :: int). nat \<bar>x\<bar>)"
    by (intro sum_abs_exact [of _ 149]) (simp_all add: sum_list_replicate)
  then show ?thesis by (simp add: sum_list_replicate)
qed

lemma mean_units:
  "spec_mean_abs frame = real (\<Sum>x\<leftarrow>frame. nat \<bar>x\<bar>) / 2 ^ 149 / real (length frame)"
  by (simp only: spec_mean_abs_def sum_sample_values)

text \<open>
  Claim C8 as stated fails: no threshold on the mean decides the flag. Ten samples of 1
  followed by one of \<open>2 ^ -50 + 2 ^ -73\<close> and zeros set the flag, since the eleventh
  addition rounds up; ten samples of 1 followed by 4086 of \<open>2 ^ -51\<close> do not, since every
  further addition rounds back to 10, although the mean of this frame is the larger one.
  Ten samples of 1, one of \<open>2 ^ -60\<close> and zeros have a mean above 10 / 4096 and leave the
  flag clear. All samples are Float32 numbers.
\<close>

theorem mean_threshold_counterexample:
  "isSpeaking (onaudioprocess
     (replicate 10 (2 ^ 149) @ [2 ^ 99 + 2 ^ 76] @ replicate 4085 0) init) \<and>
   \<not> isSpeaking (onaudioprocess (replicate 10 (2 ^ 149) @ replicate 4086 (2 ^ 98)) init) \<and>
   spec_mean_abs (replicate 10 (2 ^ 149) @ [2 ^ 99 + 2 ^ 76] @ replicate 4085 0) <
     spec_mean_abs (replicate 10 (2 ^ 149) @ replicate 4086 (2 ^ 98)) \<and>
   \<not> isSpeaking (onaudioprocess (replicate 10 (2 ^ 149) @ [2 ^ 89] @ replicate 4085 0) init) \<and>
   spec_mean_abs (replicate 10 (2 ^ 149) @ [2 ^ 89] @ replicate 4085 0) > 10 / real frameSize \<and>
   length (replicate 10 (2 ^ 149 :: int) @ [2 ^ 99 + 2 ^ 76] @ replicate 4085 0) = frameSize \<and>
   length (replicate 10 (2 ^ 149 :: int) @ replicate 4086 (2 ^ 98)) = frameSize \<and>
   length (replicate 10 (2 ^ 149 :: int) @ [2 ^ 89] @ replicate 4085 0) = frameSize \<and>
   list_all is_float32 [2 ^ 149, 2 ^ 99 + 2 ^ 76, 2 ^ 98, 2 ^ 89, 0]"
proof -
  let ?f1 = "replicate 10 (2 ^ 149 :: int) @ [2 ^ 99 + 2 ^ 76] @ replicate 4085 0"
  let ?f2 = "replicate 10 (2 ^ 149 :: int) @ replicate 4086 (2 ^ 98)"
  let ?f3 = "replicate 10 (2 ^ 149 :: int) @ [2 ^ 89] @ replicate 4085 0"
  have "round_double (10 * 2 ^ 49 * 2 ^ 100 + (2 ^ 99 + 2 ^ 76)) =
      (if (2 ^ 99 + 2 ^ 76 :: nat) > 2 ^ (100 - 1) \<or>
          ((2 ^ 99 + 2 ^ 76 :: nat) = 2 ^ (100 - 1) \<and> odd (10 * 2 ^ 49 :: nat))
       then 10 * 2 ^ 49 + 1 else 10 * 2 ^ 49) * 2 ^ 100"
    by (rule round_double_split) simp_all
  then have up: "round_double (10 * 2 ^ 149 + nat \<bar>2 ^ 99 + 2 ^ 76\<bar>) = 10 * 2 ^ 149 + 2 ^ 100"
    by simp
  have "round_double ((10 * 2 ^ 49 + 1) * 2 ^ 100) = (10 * 2 ^ 49 + 1) * 2 ^ 100"
    by (rule round_double_exact) simp
  then have keep1: "round_double (10 * 2 ^ 149 + 2 ^ 100 + nat \<bar>0\<bar>) = 10 * 2 ^ 149 + 2 ^ 100"
    by simp
  have "round_double (10 * 2 ^ 49 * 2 ^ 100 + 2 ^ 98) =
      (if (2 ^ 98 :: nat) > 2 ^ (100 - 1) \<or>
          ((2 ^ 98 :: nat) = 2 ^ (100 - 1) \<and> odd (10 * 2 ^ 49 :: nat))
       then 10 * 2 ^ 49 + 1 else 10 * 2 ^ 49) * 2 ^ 100"
    by (rule round_double_split) simp_all
  then have down2: "round_double (10 * 2 ^ 149 + nat \<bar>2 ^ 98\<bar>) = 10 * 2 ^ 149" by simp
  have "round_double (10 * 2 ^ 49 * 2 ^ 100 + 2 ^ 89) =
      (if (2 ^ 89 :: nat) > 2 ^ (100 - 1) \<or>
          ((2 ^ 89 :: nat) = 2 ^ (100 - 1) \<and> odd (10 * 2 ^ 49 :: nat))
       then 10 * 2 ^ 49 + 1 else 10 * 2 ^ 49) * 2 ^ 100"
    by (rule round_double_split) simp_all
  then have down3: "round_double (10 * 2 ^ 149 + nat \<bar>2 ^ 89\<bar>) = 10 * 2 ^ 149" by simp
  have "round_double (10 * 2 ^ 49 * 2 ^ 100) = 10 * 2 ^ 49 * 2 ^ 100"
    by (rule round_double_exact) simp
  then have keep3: "round_double (10 * 2 ^ 149 + nat \<bar>0\<bar>) = 10 * 2 ^ 149" by simp
  have s1: "sum_abs ?f1 = 10 * 2 ^ 149 + 2 ^ 100"
    by (simp only: sum_abs_append ten_ones foldl_append foldl_Cons foldl_Nil up
          foldl_absorbed [OF keep1])
  have s2: "sum_abs ?f2 = 10 * 2 ^ 149"
    by (simp only: sum_abs_append ten_ones foldl_absorbed [OF down2])
  have s3: "sum_abs ?f3 = 10 * 2 ^ 149"
    by (simp only: sum_abs_append ten_ones foldl_append foldl_Cons foldl_Nil down3
          foldl_absorbed [OF keep3])
  have "(10::nat) * 2 ^ 149 < 10 * 2 ^ 149 + 2 ^ 100" by simp
  then have a: "isSpeaking (onaudioprocess ?f1 init)"
    by (simp only: isSpeaking_onaudioprocess s1)
  have b: "\<not> isSpeaking (onaudioprocess ?f2 init)"
    by (simp only: isSpeaking_onaudioprocess s2 less_irrefl not_False_eq_True)
  have d: "\<not> isSpeaking (onaudioprocess ?f3 init)"
    by (simp only: isSpeaking_onaudioprocess s3 less_irrefl not_False_eq_True)
  have l1: "length ?f1 = frameSize" and l2: "length ?f2 = frameSize"
    and l3: "length ?f3 = frameSize"
    by (simp_all add: frameSize_def)
  have t1: "(\<Sum>x\<leftarrow>?f1. nat \<bar>x\<bar>) = 10 * 2 ^ 149 + (2 ^ 99 + 2 ^ 76)"
    by (simp add: sum_list_replicate nat_add_distrib nat_power_eq)
  have t2: "(\<Sum>x\<leftarrow>?f2. nat \<bar>x\<bar>) = 10 * 2 ^ 149 + 4086 * 2 ^ 98"
    by (simp add: sum_list_replicate nat_power_eq)
  have t3: "(\<Sum>x\<leftarrow>?f3. nat \<bar>x\<bar>) = 10 * 2 ^ 149 + 2 ^ 89"
    by (simp add: sum_list_replicate nat_power_eq)
  have "(10::nat) * 2 ^ 149 + (2 ^ 99 + 2 ^ 76) < 10 * 2 ^ 149 + 4086 * 2 ^ 98" by simp
  then have "real (\<Sum>x\<leftarrow>?f1. nat \<bar>x\<bar>) < real (\<Sum>x\<leftarrow>?f2. nat \<bar>x\<bar>)"
    by (simp only: t1 t2 of_nat_less_iff)
  then have "real (\<Sum>x\<leftarrow>?f1. nat \<bar>x\<bar>) / 2 ^ 149 / real frameSize <
             real (\<Sum>x\<leftarrow>?f2. nat \<bar>x\<bar>) / 2 ^ 149 / real frameSize"
    by (intro divide_strict_right_mono) (simp_all add: frameSize_def)
  then have c: "spec_mean_abs ?f1 < spec_mean_abs ?f2"
    by (simp only: mean_units l1 l2)
  have "(10::nat) * 2 ^ 149 < 10 * 2 ^ 149 + 2 ^ 89" by simp
  then have "10 * 2 ^ 149 < (\<Sum>x\<leftarrow>?f3. nat \<bar>x\<bar>)" by (simp only: t3)
  then have e: "spec_mean_abs ?f3 > 10 / real frameSize"
    by (simp only: mean_exceeds [OF l3])
  have "is_float32 (int (1 * 2 ^ 149))" by (rule float32I) simp_all
  moreover have "is_float32 (int ((2 ^ 23 + 1) * 2 ^ 76))" by (rule float32I) simp_all
  moreover have "is_float32 (int (1 * 2 ^ 98))" by (rule float32I) simp_all
  moreover have "is_float32 (int (1 * 2 ^ 89))" by (rule float32I) simp_all
  moreover have "is_float32 (int (0 * 2 ^ 0))" by (rule float32I) simp_all
  ultimately have f: "list_all is_float32 [2 ^ 149, 2 ^ 99 + 2 ^ 76, 2 ^ 98, 2 ^ 89, 0]" by simp
  from a b c d e l1 l2 l3 f show ?thesis by (intro conjI)
qed

section \<open>Registration and login\<close>

lemma findIndex_negative: "(findIndex P xs < 0) = (\<forall>x\<in>set xs. \<not> P x)"
  by (induction xs) (auto simp: Let_def)

lemma saveUser_fresh:
  assumes "\<forall>u\<in>set (getUsers st). user_id u \<noteq> user_id user"
  shows "getUsers (saveUser user st) = getUsers st @ [user]"
proof -
  from assms have "findIndex (\<lambda>u. user_id u = user_id user) (getUsers st) < 0"
    by (simp add: findIndex_negative)
  then show ?thesis by (simp add: saveUser_def Let_def getUsers_def)
qed

lemma login_users: "getUsers (snd (login toLowerCase name st)) = getUsers st"
  by (simp add: login_def getUsers_def split: option.split)

lemma find_None_ball: "(find P xs = None) = (\<forall>x\<in>set xs. \<not> P x)"
  by (induction xs) simp_all

lemma find_Some_in: "find P xs = Some x \<Longrightarrow> x \<in> set xs \<and> P x"
  by (induction xs) (simp_all split: if_splits)

lemma register_throws:
  "(register toLowerCase name mail uuid st = Inl (Error ''Username already exists'')) =
     (\<exists>u\<in>set (getUsers st). toLowerCase (username u) = toLowerCase name)"
proof (cases "find (\<lambda>u. toLowerCase (username u) = toLowerCase name) (getUsers st)")
  case None
  then have "\<forall>u\<in>set (getUsers st). toLowerCase (username u) \<noteq> toLowerCase name"
    by (simp only: find_None_ball)
  moreover from None have "register toLowerCase name mail uuid st \<noteq> Inl (Error ''Username already exists'')"
    by (simp add: register_def Let_def)
  ultimately show ?thesis by blast
next
  case (Some u)
  from find_Some_in [OF Some]
  have "\<exists>u\<in>set (getUsers st). toLowerCase (username u) = toLowerCase name" by blast
  moreover from Some have "register toLowerCase name mail uuid st = Inl (Error ''Username already exists'')"
    by (simp add: register_def)
  ultimately show ?thesis by blast
qed

text \<open>
  Claim C10. Whatever function \<^verbatim>\<open>toLowerCase\<close> is, \<^verbatim>\<open>register\<close> throws
  \<^verbatim>\<open>Username already exists\<close> exactly when a stored user's name and the given name are
  equal after it, and throws nothing else. Otherwise, the id drawn by
  \<^verbatim>\<open>crypto.randomUUID()\<close> being none of the stored ones, it returns the new user with
  the default preferences (ISO, literal translation on), the stored list is the old one
  with that user appended, and the current-user key holds the new id. \<^verbatim>\<open>login\<close>
  returns a stored user whose name equals the given one after \<^verbatim>\<open>toLowerCase\<close> and
  makes it the current user, or returns \<^verbatim>\<open>null\<close> exactly when there is none, leaving
  the storage as it was; it never changes the stored users.
\<close>

theorem register_login_by_username:
  "(register toLowerCase name mail uuid st = Inl (Error ''Username already exists'')) =
     (\<exists>u\<in>set (getUsers st). toLowerCase (username u) = toLowerCase name) \<and>
   (\<forall>e. register toLowerCase name mail uuid st = Inl e \<longrightarrow> e = Error ''Username already exists'') \<and>
   ((\<forall>u\<in>set (getUsers st). toLowerCase (username u) \<noteq> toLowerCase name) \<and>
    (\<forall>u\<in>set (getUsers st). user_id u \<noteq> uuid) \<longrightarrow>
      (\<exists>st'. register toLowerCase name mail uuid st =
                Inr (\<lparr>user_id = uuid, username = name, email = mail,
                       preferences = DEFAULT_PREFERENCES\<rparr>, st') \<and>
             getUsers st' =
               getUsers st @ [\<lparr>user_id = uuid, username = name, email = mail,
                                preferences = DEFAULT_PREFERENCES\<rparr>] \<and>
             bayan_current_user_id st' = Some uuid)) \<and>
   transliterationScheme DEFAULT_PREFERENCES = ISO \<and>
   includeLiteralTranslation DEFAULT_PREFERENCES \<and>
   (\<forall>u. fst (login toLowerCase name st) = Some u \<longrightarrow>
      u \<in> set (getUsers st) \<and> toLowerCase (username u) = toLowerCase name \<and>
      bayan_current_user_id (snd (login toLowerCase name st)) = Some (user_id u)) \<and>
   (fst (login toLowerCase name st) = None) =
     (\<forall>u\<in>set (getUsers st). toLowerCase (username u) \<noteq> toLowerCase name) \<and>
   (fst (login toLowerCase name st) = None \<longrightarrow> snd (login toLowerCase name st) = st) \<and>
   getUsers (snd (login toLowerCase name st)) = getUsers st"
proof (intro conjI allI impI)
  show "(register toLowerCase name mail uuid st = Inl (Error ''Username already exists'')) =
     (\<exists>u\<in>set (getUsers st). toLowerCase (username u) = toLowerCase name)"
    by (rule register_throws)
next
  fix e assume "register toLowerCase name mail uuid st = Inl e"
  then show "e = Error ''Username already exists''"
    by (auto simp: register_def Let_def split: option.splits)
next
  let ?new = "\<lparr>user_id = uuid, username = name, email = mail, preferences = DEFAULT_PREFERENCES\<rparr>"
  assume a: "(\<forall>u\<in>set (getUsers st). toLowerCase (username u) \<noteq> toLowerCase name) \<and>
    (\<forall>u\<in>set (getUsers st). user_id u \<noteq> uuid)"
  then have "\<forall>u\<in>set (getUsers st). toLowerCase (username u) \<noteq> toLowerCase name"
    by (rule conjunct1)
  then have none: "find (\<lambda>u. toLowerCase (username u) = toLowerCase name) (getUsers st) = None"
    by (simp only: find_None_ball)
  from a have fresh: "\<forall>u\<in>set (getUsers st). user_id u \<noteq> user_id ?new" by simp
  let ?st' = "(saveUser ?new st)\<lparr>bayan_current_user_id := Some uuid\<rparr>"
  have "register toLowerCase name mail uuid st = Inr (?new, ?st')"
    using none by (simp add: register_def Let_def)
  moreover have "getUsers ?st' = getUsers st @ [?new]"
    using saveUser_fresh [OF fresh] by (simp add: getUsers_def)
  moreover have "bayan_current_user_id ?st' = Some uuid" by simp
  ultimately show "\<exists>st'. register toLowerCase name mail uuid st = Inr (?new, st') \<and>
      getUsers st' = getUsers st @ [?new] \<and> bayan_current_user_id st' = Some uuid"
    by blast
next
  show "transliterationScheme DEFAULT_PREFERENCES = ISO"
    by (simp add: DEFAULT_PREFERENCES_def)
next
  show "includeLiteralTranslation DEFAULT_PREFERENCES"
    by (simp add: DEFAULT_PREFERENCES_def)
next
  fix u assume l: "fst (login toLowerCase name st) = Some u"
  then have f: "find (\<lambda>u. toLowerCase (username u) = toLowerCase name) (getUsers st) = Some u"
    by (auto simp: login_def split: option.splits)
  from find_Some_in [OF f] show "u \<in> set (getUsers st)" by (rule conjunct1)
  from find_Some_in [OF f] show "toLowerCase (username u) = toLowerCase name" by (rule conjunct2)
  from f show "bayan_current_user_id (snd (login toLowerCase name st)) = Some (user_id u)"
    by (simp add: login_def)
next
  show "(fst (login toLowerCase name st) = None) =
     (\<forall>u\<in>set (getUsers st). toLowerCase (username u) \<noteq> toLowerCase name)"
  proof (cases "find (\<lambda>u. toLowerCase (username u) = toLowerCase name) (getUsers st)")
    case None
    moreover from None
    have "\<forall>u\<in>set (getUsers st). toLowerCase (username u) \<noteq> toLowerCase name"
      by (simp only: find_None_ball)
    ultimately show ?thesis by (simp add: login_def)
  next
    case (Some u)
    from find_Some_in [OF Some]
    have "\<not> (\<forall>u\<in>set (getUsers st). toLowerCase (username u) \<noteq> toLowerCase name)" by blast
    with Some show ?thesis by (simp add: login_def)
  qed
next
  assume "fst (login toLowerCase name st) = None"
  then show "snd (login toLowerCase name st) = st" by (auto simp: login_def split: option.splits)
next
  show "getUsers (snd (login toLowerCase name st)) = getUsers st" by (rule login_users)
qed


text \<open>
  A store with the one user Amina: registering AMINA is refused, registering Bilal
  appends him, and Zayd cannot log in.
\<close>

theorem register_login_by_username_witness:
  "register ascii_lower ''AMINA'' ''b@x.org'' ''u2''
     \<lparr>bayan_users = Some [\<lparr>user_id = ''u1'', username = ''Amina'', email = ''a@x.org'',
                            preferences = DEFAULT_PREFERENCES\<rparr>],
      bayan_current_user_id = None\<rparr> = Inl (Error ''Username already exists'') \<and>
   (\<exists>st'. register ascii_lower ''Bilal'' ''b@x.org'' ''u2''
            \<lparr>bayan_users = Some [\<lparr>user_id = ''u1'', username = ''Amina'', email = ''a@x.org'',
                                   preferences = DEFAULT_PREFERENCES\<rparr>],
             bayan_current_user_id = None\<rparr> =
              Inr (\<lparr>user_id = ''u2'', username = ''Bilal'', email = ''b@x.org'',
                     preferences = DEFAULT_PREFERENCES\<rparr>, st') \<and>
          getUsers st' =
            [\<lparr>user_id = ''u1'', username = ''Amina'', email = ''a@x.org'',
               preferences = DEFAULT_PREFERENCES\<rparr>,
             \<lparr>user_id = ''u2'', username = ''Bilal'', email = ''b@x.org'',
               preferences = DEFAULT_PREFERENCES\<rparr>] \<and>
          bayan_current_user_id st' = Some ''u2'') \<and>
   fst (login ascii_lower ''Zayd''
     \<lparr>bayan_users = Some [\<lparr>user_id = ''u1'', username = ''Amina'', email = ''a@x.org'',
                            preferences = DEFAULT_PREFERENCES\<rparr>],
      bayan_current_user_id = None\<rparr>) = None"
proof -
  let ?amina = "\<lparr>user_id = ''u1'', username = ''Amina'', email = ''a@x.org'',
                  preferences = DEFAULT_PREFERENCES\<rparr>"
  let ?st = "\<lparr>bayan_users = Some [?amina], bayan_current_user_id = None\<rparr>"
  have users: "getUsers ?st = [?amina]" by (simp add: getUsers_def)
  have same: "ascii_lower ''Amina'' = ascii_lower ''AMINA''" by code_simp
  have other: "ascii_lower ''Amina'' \<noteq> ascii_lower ''Bilal''"
    "ascii_lower ''Amina'' \<noteq> ascii_lower ''Zayd''"
    by code_simp+
  have "\<exists>u\<in>set (getUsers ?st). ascii_lower (username u) = ascii_lower ''AMINA''"
    unfolding users using same by simp
  then have a: "register ascii_lower ''AMINA'' ''b@x.org'' ''u2'' ?st = Inl (Error ''Username already exists'')"
    by (rule register_login_by_username [of ascii_lower "''AMINA''" "''b@x.org''" "''u2''" ?st,
          THEN conjunct1, THEN iffD2])
  have "(\<forall>u\<in>set (getUsers ?st). ascii_lower (username u) \<noteq> ascii_lower ''Bilal'') \<and>
        (\<forall>u\<in>set (getUsers ?st). user_id u \<noteq> ''u2'')"
    unfolding users using other by simp
  then have "\<exists>st'. register ascii_lower ''Bilal'' ''b@x.org'' ''u2'' ?st =
              Inr (\<lparr>user_id = ''u2'', username = ''Bilal'', email = ''b@x.org'',
                     preferences = DEFAULT_PREFERENCES\<rparr>, st') \<and>
          getUsers st' = getUsers ?st @
             [\<lparr>user_id = ''u2'', username = ''Bilal'', email = ''b@x.org'',
               preferences = DEFAULT_PREFERENCES\<rparr>] \<and>
          bayan_current_user_id st' = Some ''u2''"
    by (rule register_login_by_username [of ascii_lower "''Bilal''" "''b@x.org''" "''u2''" ?st,
          THEN conjunct2, THEN conjunct2, THEN conjunct1, THEN mp])
  then have b: "\<exists>st'. register ascii_lower ''Bilal'' ''b@x.org'' ''u2'' ?st =
              Inr (\<lparr>user_id = ''u2'', username = ''Bilal'', email = ''b@x.org'',
                     preferences = DEFAULT_PREFERENCES\<rparr>, st') \<and>
          getUsers st' = [?amina,
             \<lparr>user_id = ''u2'', username = ''Bilal'', email = ''b@x.org'',
               preferences = DEFAULT_PREFERENCES\<rparr>] \<and>
          bayan_current_user_id st' = Some ''u2''"
    unfolding users by simp
  have "\<forall>u\<in>set (getUsers ?st). ascii_lower (username u) \<noteq> ascii_lower ''Zayd''"
    unfolding users using other by simp
  then have c: "fst (login ascii_lower ''Zayd'' ?st) = None"
    by (rule register_login_by_username [of ascii_lower "''Zayd''" "''b@x.org''" "''u2''" ?st,
          THEN conjunct2, THEN conjunct2, THEN conjunct2, THEN conjunct2, THEN conjunct2,
          THEN conjunct2, THEN conjunct1, THEN iffD2])
  from a b c show ?thesis by (intro conjI)
qed


section \<open>The summary of a response\<close>

text \<open>
  Claim C9 at its failing input. When the response text is \<^verbatim>\<open>null\<close>, \<^verbatim>\<open>JSON.parse\<close>
  succeeds with \<^verbatim>\<open>null\<close> and the first property read raises a \<^verbatim>\<open>TypeError\<close>: no
  summary is returned. A truthy value that is not a string is passed on as it is. A
  text that does not parse, for comparison, yields the fallback summary.
\<close>

theorem summarizeLecture_null_response:
  "summarizeLecture (Parsed JNull) groundingChunks = Inl TypeError \<and>
   summarizeLecture (Parsed (JObject [(''summary_short'', JNumber 5)])) None =
     Inr \<lparr>summary_short = JNumber 5,
          summary_medium = JString ''Summary generation failed.'',
          summary_long = JString ''Summary generation failed.'',
          claims = [], transliterations = [], warnings = []\<rparr> \<and>
   summarizeLecture SyntaxError None =
     Inr \<lparr>summary_short = JString ''Summary generation failed.'',
          summary_medium = JString ''Summary generation failed.'',
          summary_long = JString ''Summary generation failed.'',
          claims = [], transliterations = [], warnings = []\<rparr>"
  by (simp add: summarizeLecture_def attach_def or_failed_def)

end
